theory Spec2Isabelle
  imports Complex_Main "HOL-Library.Log_Nat"
begin

section \<open>JavaScript numbers\<close>

text \<open>
  Every \<open>number\<close> of the library is an IEEE 754 binary64 value: a NaN, an infinity,
  a zero with a sign, or a finite non-zero value \<open>m * 2 ^ e\<close> with \<open>\<bar>m\<bar> < 2 ^ 53\<close>
  and \<open>- 1074 \<le> e \<le> 971\<close>. \<open>Fin 0\<close> is \<open>+0\<close>, \<open>NegZero\<close> is \<open>-0\<close>. The arithmetic
  rounds to nearest, ties to even, as ECMAScript prescribes for \<open>+\<close>, \<open>-\<close>, \<open>*\<close>
  and \<open>/\<close>.
\<close>

datatype number = NaN | PosInf | NegInf | NegZero | Fin real

fun val :: "number \<Rightarrow> real" where
  "val (Fin x) = x"
| "val _ = 0"

fun signbit :: "number \<Rightarrow> bool" where
  "signbit NegInf = True"
| "signbit NegZero = True"
| "signbit (Fin x) = (x < 0)"
| "signbit _ = False"

definition is_inf :: "number \<Rightarrow> bool" where
  "is_inf a = (a = PosInf \<or> a = NegInf)"

definition is_zero :: "number \<Rightarrow> bool" where
  "is_zero a = (a = Fin 0 \<or> a = NegZero)"

definition inf_signed :: "bool \<Rightarrow> number" where
  "inf_signed s = (if s then NegInf else PosInf)"

definition zero_signed :: "bool \<Rightarrow> number" where
  "zero_signed s = (if s then NegZero else Fin 0)"

text \<open>\<open>ilog2 x\<close> is the binary exponent \<open>\<lfloor>log 2 x\<rfloor>\<close> of a positive real, computed on
  integers so that it evaluates.\<close>

definition ilog2 :: "real \<Rightarrow> int" where
  "ilog2 x = (if 1 \<le> x then bitlen \<lfloor>x\<rfloor> - 1 else - bitlen (\<lceil>1 / x\<rceil> - 1))"

text \<open>The exponent of the unit in the last place of the binary64 value nearest to
  \<open>x\<close>: 53 significant bits, and never below the subnormal spacing \<open>2 ^ - 1074\<close>.\<close>

definition ulp_exp :: "real \<Rightarrow> int" where
  "ulp_exp x = max (ilog2 x - 52) (- 1074)"

text \<open>Rounding a real to the nearest integer, a tie going to the even neighbour.\<close>

definition rne :: "real \<Rightarrow> int" where
  "rne x = (let f = \<lfloor>x\<rfloor>; d = x - of_int f in
     if d < 1 / 2 then f else if 1 / 2 < d then f + 1 else if even f then f else f + 1)"

text \<open>\<open>rd x\<close> rounds a positive real to the nearest multiple of its unit in the last
  place, the exponent range unbounded above.\<close>

definition rd :: "real \<Rightarrow> real" where
  "rd x = of_int (rne (x / 2 powi ulp_exp x)) * 2 powi ulp_exp x"

text \<open>\<open>round64 x\<close> is the binary64 value of a real result \<open>x\<close>: a rounded magnitude of
  \<open>2 ^ 1024\<close> or more overflows to the infinity of the sign of \<open>x\<close>, and a non-zero \<open>x\<close>
  that rounds to zero keeps its sign.\<close>

definition round64 :: "real \<Rightarrow> number" where
  "round64 x = (if x = 0 then Fin 0
     else let r = rd \<bar>x\<bar> in
       if 2 ^ 1024 \<le> r then inf_signed (x < 0)
       else if r = 0 then zero_signed (x < 0)
       else Fin (if x < 0 then - r else r))"

text \<open>JavaScript's \<open>a + b\<close> on numbers.\<close>

definition jadd :: "number \<Rightarrow> number \<Rightarrow> number" where
  "jadd a b = (if a = NaN \<or> b = NaN then NaN
     else if is_inf a then (if is_inf b \<and> a \<noteq> b then NaN else a)
     else if is_inf b then b
     else if a = NegZero \<and> b = NegZero then NegZero
     else round64 (val a + val b))"

text \<open>Unary minus, and \<open>a - b\<close>, which IEEE 754 defines as \<open>a + (- b)\<close>.\<close>

fun jneg :: "number \<Rightarrow> number" where
  "jneg NaN = NaN"
| "jneg PosInf = NegInf"
| "jneg NegInf = PosInf"
| "jneg NegZero = Fin 0"
| "jneg (Fin x) = (if x = 0 then NegZero else Fin (- x))"

definition jsub :: "number \<Rightarrow> number \<Rightarrow> number" where
  "jsub a b = jadd a (jneg b)"

text \<open>JavaScript's \<open>a * b\<close> on numbers.\<close>

definition jmul :: "number \<Rightarrow> number \<Rightarrow> number" where
  "jmul a b = (if a = NaN \<or> b = NaN then NaN
     else if is_inf a \<or> is_inf b then
       (if is_zero a \<or> is_zero b then NaN else inf_signed (signbit a \<noteq> signbit b))
     else if val a * val b = 0 then zero_signed (signbit a \<noteq> signbit b)
     else round64 (val a * val b))"

text \<open>JavaScript's \<open>a / b\<close> on numbers: no division raises; a zero divisor gives an
  infinity, or NaN for \<open>0 / 0\<close>.\<close>

definition jdiv :: "number \<Rightarrow> number \<Rightarrow> number" where
  "jdiv a b = (if a = NaN \<or> b = NaN then NaN
     else if is_inf a then (if is_inf b then NaN else inf_signed (signbit a \<noteq> signbit b))
     else if is_inf b then zero_signed (signbit a \<noteq> signbit b)
     else if is_zero b then (if is_zero a then NaN else inf_signed (signbit a \<noteq> signbit b))
     else if is_zero a then zero_signed (signbit a \<noteq> signbit b)
     else round64 (val a / val b))"

text \<open>\<open>Math.sqrt\<close>, taken as the correctly rounded square root.\<close>

fun jsqrt :: "number \<Rightarrow> number" where
  "jsqrt NaN = NaN"
| "jsqrt PosInf = PosInf"
| "jsqrt NegInf = NaN"
| "jsqrt NegZero = NegZero"
| "jsqrt (Fin x) = (if x < 0 then NaN else round64 (sqrt x))"

text \<open>\<open>a === b\<close> on numbers: NaN equals nothing, and the two zeros are equal.\<close>

definition num_eq :: "number \<Rightarrow> number \<Rightarrow> bool" where
  "num_eq a b = (a \<noteq> NaN \<and> b \<noteq> NaN \<and> (a = b \<or> (is_zero a \<and> is_zero b)))"

text \<open>\<open>a < b\<close> on numbers: false as soon as one side is NaN.\<close>

definition num_lt :: "number \<Rightarrow> number \<Rightarrow> bool" where
  "num_lt a b = (a \<noteq> NaN \<and> b \<noteq> NaN \<and> a \<noteq> PosInf \<and> b \<noteq> NegInf \<and>
     (a = NegInf \<or> b = PosInf \<or> val a < val b))"

section \<open>JavaScript values\<close>

text \<open>
  The label arrays are typed \<open>Array<T>\<close>, by default \<open>number | boolean | string\<close>, and
  \<open>isPositive\<close> takes its argument as \<open>unknown\<close>: at run time an element may be any
  value. \<open>JObject r\<close> stands for every value whose \<open>typeof\<close> is none of
  \<open>"boolean"\<close>, \<open>"number"\<close>, \<open>"string"\<close>, \<open>"undefined"\<close> and that is not \<open>null\<close>;
  \<open>r\<close> is its identity. A string is the sequence of its bytes in UTF-8, so that an
  ASCII character is one \<open>char\<close> and two strings are equal iff their bytes are.
\<close>

datatype jsvalue =
    JUndefined
  | JNull
  | JBool bool
  | JNum number
  | JStr string
  | JObject nat

text \<open>\<open>a === b\<close>.\<close>

fun strict_eq :: "jsvalue \<Rightarrow> jsvalue \<Rightarrow> bool" where
  "strict_eq (JNum a) (JNum b) = num_eq a b"
| "strict_eq a b = (a = b)"

text \<open>\<open>String.prototype.toLowerCase\<close> on the letters \<open>A\<close> to \<open>Z\<close>; the other bytes are
  left as they are. No character outside \<open>A\<close> to \<open>Z\<close> has \<open>t\<close>, \<open>r\<close>, \<open>u\<close> or \<open>e\<close> as
  its lower case, so the comparison with \<open>"true"\<close> in \<open>isPositive\<close> is the one of the
  source.\<close>

definition lower_char :: "char \<Rightarrow> char" where
  "lower_char c = (let n = (of_char c :: nat) in
     if 65 \<le> n \<and> n \<le> 90 then char_of (n + 32) else c)"

definition toLowerCase :: "string \<Rightarrow> string" where
  "toLowerCase s = map lower_char s"

text \<open>Reading \<open>xs[i]\<close>: \<open>undefined\<close> beyond the end of the array.\<close>

definition at_index :: "jsvalue list \<Rightarrow> nat \<Rightarrow> jsvalue" where
  "at_index xs i = (if i < length xs then xs ! i else JUndefined)"

section \<open>The library\<close>

record ConfusionCounts =
  tp :: number
  tn :: number
  fp :: number
  fn :: number

record ConfusionMetrics = ConfusionCounts +
  total :: number
  prevalence :: number
  tpr :: number
  fpr :: number
  fnr :: number
  tnr :: number
  ppv :: number
  npv :: number
  lrPlus :: number
  lrMinus :: number
  accuracy :: number
  fdr :: number
  for' :: number
  markedness :: number
  dor :: number
  balancedAccuracy :: number
  f1 :: number
  fm :: number
  mcc :: number
  ts :: number

datatype error = Error string

text \<open>\<open>divide\<close> of the source.\<close>

definition divide_num :: "number \<Rightarrow> number \<Rightarrow> number" where
  "divide_num numerator denominator =
     (if num_eq denominator (Fin 0) then NaN else jdiv numerator denominator)"

text \<open>The closure \<open>isPositive\<close>, with the \<open>positiveValue\<close> it captures as its first
  argument. An omitted \<open>positiveValue\<close> is \<open>undefined\<close>.\<close>

definition isPositive :: "jsvalue \<Rightarrow> jsvalue \<Rightarrow> bool" where
  "isPositive positiveValue v =
     (if positiveValue \<noteq> JUndefined then strict_eq v positiveValue
      else case v of
        JBool b \<Rightarrow> b = True
      | JNum n \<Rightarrow> num_eq n (Fin 1)
      | JStr s \<Rightarrow> s = ''1'' \<or> toLowerCase s = ''true''
      | _ \<Rightarrow> False)"

text \<open>One turn of the loop body: the bucket of index \<open>i\<close> is incremented.\<close>

definition count_step :: "jsvalue \<Rightarrow> jsvalue list \<Rightarrow> jsvalue list \<Rightarrow> nat \<Rightarrow>
    ConfusionCounts \<Rightarrow> ConfusionCounts" where
  "count_step positiveValue predicted actual i c =
     (let p = isPositive positiveValue (at_index predicted i);
          a = isPositive positiveValue (at_index actual i)
      in if p \<and> a then c\<lparr>tp := jadd (tp c) (Fin 1)\<rparr>
         else if p \<and> \<not> a then c\<lparr>fp := jadd (fp c) (Fin 1)\<rparr>
         else if \<not> p \<and> a then c\<lparr>fn := jadd (fn c) (Fin 1)\<rparr>
         else c\<lparr>tn := jadd (tn c) (Fin 1)\<rparr>)"

text \<open>The loop \<open>for (let i = 0; i < predicted.length; i++)\<close>, from index \<open>i\<close> on.\<close>

function count_loop :: "jsvalue \<Rightarrow> jsvalue list \<Rightarrow> jsvalue list \<Rightarrow> nat \<Rightarrow>
    ConfusionCounts \<Rightarrow> ConfusionCounts" where
  "count_loop positiveValue predicted actual i c =
     (if i < length predicted
      then count_loop positiveValue predicted actual (Suc i)
             (count_step positiveValue predicted actual i c)
      else c)"
  by pat_completeness auto
termination
  by (relation "measure (\<lambda>(pv, predicted, actual, i, c). length predicted - i)") auto

declare count_loop.simps [simp del]

definition LengthMismatchError :: error where
  "LengthMismatchError = Error ''predicted and actual must have the same length''"

definition computeCountsFromLabels :: "jsvalue list \<Rightarrow> jsvalue list \<Rightarrow> jsvalue \<Rightarrow>
    error + ConfusionCounts" where
  "computeCountsFromLabels predicted actual positiveValue =
     (if length predicted \<noteq> length actual then Inl LengthMismatchError
      else Inr (count_loop positiveValue predicted actual 0
                  \<lparr>tp = Fin 0, tn = Fin 0, fp = Fin 0, fn = Fin 0\<rparr>))"

definition computeMetricsFromCounts :: "ConfusionCounts \<Rightarrow> ConfusionMetrics" where
  "computeMetricsFromCounts counts =
     (let tp = tp counts; tn = tn counts; fp = fp counts; fn = fn counts;
          positive = jadd tp fn;
          negative = jadd tn fp;
          total = jadd positive negative;
          tpr = divide_num tp positive;
          fnr = divide_num fn positive;
          tnr = divide_num tn negative;
          fpr = divide_num fp negative;
          ppv = divide_num tp (jadd tp fp);
          npv = divide_num tn (jadd tn fn);
          prevalence = divide_num positive total;
          accuracy = divide_num (jadd tp tn) total;
          fdr = jsub (Fin 1) ppv;
          for' = jsub (Fin 1) npv;
          markedness = jsub (jadd ppv npv) (Fin 1);
          lrPlus = divide_num tpr fpr;
          lrMinus = divide_num fnr tnr;
          dor = divide_num (jmul tp tn) (jmul fp fn);
          balancedAccuracy = jdiv (jadd tpr tnr) (Fin 2);
          f1 = divide_num (jmul (Fin 2) tp) (jadd (jadd (jmul (Fin 2) tp) fp) fn);
          fm = jsqrt (jmul ppv tpr);
          mcc = divide_num (jsub (jmul tp tn) (jmul fp fn))
                   (jsqrt (jmul (jmul (jmul (jadd tp fp) (jadd tp fn)) (jadd tn fp))
                      (jadd tn fn)));
          ts = divide_num tp (jadd (jadd tp fp) fn)
      in \<lparr>tp = tp, tn = tn, fp = fp, fn = fn,
          total = total, prevalence = prevalence, tpr = tpr, fpr = fpr, fnr = fnr,
          tnr = tnr, ppv = ppv, npv = npv, lrPlus = lrPlus, lrMinus = lrMinus,
          accuracy = accuracy, fdr = fdr, for' = for', markedness = markedness,
          dor = dor, balancedAccuracy = balancedAccuracy, f1 = f1, fm = fm,
          mcc = mcc, ts = ts\<rparr>)"

text \<open>A \<open>throw\<close> inside \<open>computeCountsFromLabels\<close> leaves \<open>computeMetricsFromLabels\<close>
  at once.\<close>

definition computeMetricsFromLabels :: "jsvalue list \<Rightarrow> jsvalue list \<Rightarrow> jsvalue \<Rightarrow>
    error + ConfusionMetrics" where
  "computeMetricsFromLabels predicted actual positiveValue =
     (case computeCountsFromLabels predicted actual positiveValue of
        Inl e \<Rightarrow> Inl e
      | Inr counts \<Rightarrow> Inr (computeMetricsFromCounts counts))"

section \<open>The vocabulary of the specification\<close>

text \<open>The finite binary64 values: zero, and the reals below \<open>2 ^ 1024\<close> in magnitude
  that are a whole multiple of their unit in the last place.\<close>

definition is_double :: "real \<Rightarrow> bool" where
  "is_double x = (x = 0 \<or>
     (\<bar>x\<bar> < 2 ^ 1024 \<and> (let q = \<bar>x\<bar> / 2 powi ulp_exp \<bar>x\<bar> in of_int \<lfloor>q\<rfloor> = q)))"

text \<open>A number that is a non-negative integer, as the fields of a \<open>ConfusionCounts\<close>
  are meant to be. \<open>-0\<close> is one: it is an integer and is not below 0.\<close>

definition is_count :: "number \<Rightarrow> bool" where
  "is_count a = (case a of
       Fin x \<Rightarrow> 0 \<le> x \<and> of_int \<lfloor>x\<rfloor> = x \<and> is_double x
     | NegZero \<Rightarrow> True
     | _ \<Rightarrow> False)"

definition valid_counts :: "ConfusionCounts \<Rightarrow> bool" where
  "valid_counts c = (is_count (tp c) \<and> is_count (tn c) \<and> is_count (fp c) \<and> is_count (fn c))"

text \<open>A number that is not negative (and not NaN), and \<open>a <= b\<close> on numbers.\<close>

definition nonneg :: "number \<Rightarrow> bool" where
  "nonneg a = (case a of Fin x \<Rightarrow> 0 \<le> x | NegZero \<Rightarrow> True | PosInf \<Rightarrow> True | _ \<Rightarrow> False)"

definition num_le :: "number \<Rightarrow> number \<Rightarrow> bool" where
  "num_le a b = (a \<noteq> NaN \<and> b \<noteq> NaN \<and>
     (a = NegInf \<or> b = PosInf \<or> (a \<noteq> PosInf \<and> b \<noteq> NegInf \<and> val a \<le> val b)))"

text \<open>A number in the closed interval from 0 to 1 (\<open>-0\<close> equals 0).\<close>

definition in_unit :: "number \<Rightarrow> bool" where
  "in_unit a = (case a of Fin x \<Rightarrow> 0 \<le> x \<and> x \<le> 1 | NegZero \<Rightarrow> True | _ \<Rightarrow> False)"

text \<open>A number equal to 1 within floating-point tolerance: four units in the last
  place of 1.\<close>

definition near_one :: "number \<Rightarrow> bool" where
  "near_one a = (case a of Fin x \<Rightarrow> \<bar>x - 1\<bar> \<le> 1 / 2 ^ 50 | _ \<Rightarrow> False)"

text \<open>A list that is a JavaScript array: it has fewer than \<open>2 ^ 32\<close> elements.\<close>

definition js_array :: "jsvalue list \<Rightarrow> bool" where
  "js_array xs = (length xs < 2 ^ 32)"

text \<open>Section 4.1 of the specification: the positivity rule. A string equals
  \<open>"true"\<close> case-insensitively when each of its characters is the letter of
  \<open>"true"\<close> at its place or that letter's capital, 32 code points below.\<close>

definition same_letter :: "char \<Rightarrow> char \<Rightarrow> bool" where
  "same_letter c l = (c = l \<or> (of_char c :: nat) + 32 = of_char l)"

definition spec_isPositive :: "jsvalue \<Rightarrow> jsvalue \<Rightarrow> bool" where
  "spec_isPositive positiveValue v =
     (if positiveValue \<noteq> JUndefined then strict_eq v positiveValue
      else case v of
        JBool b \<Rightarrow> b
      | JNum n \<Rightarrow> n = Fin 1
      | JStr s \<Rightarrow> s = ''1'' \<or> list_all2 same_letter s ''true''
      | _ \<Rightarrow> False)"

text \<open>The number of indexes whose predicted element is positive or not (\<open>pb\<close>) and
  whose actual element is positive or not (\<open>ab\<close>).\<close>

definition bucket :: "jsvalue \<Rightarrow> jsvalue list \<Rightarrow> jsvalue list \<Rightarrow> bool \<Rightarrow> bool \<Rightarrow> nat" where
  "bucket positiveValue predicted actual pb ab =
     length (filter (\<lambda>i. spec_isPositive positiveValue (predicted ! i) = pb \<and>
                         spec_isPositive positiveValue (actual ! i) = ab)
               [0..<length predicted])"

text \<open>Section 4.2 of the specification: safe division and the formulas, one
  definition for each line.\<close>

definition spec_divide :: "number \<Rightarrow> number \<Rightarrow> number" where
  "spec_divide n d = (if is_zero d then NaN else jdiv n d)"

definition spec_positive :: "ConfusionCounts \<Rightarrow> number" where
  "spec_positive c = jadd (tp c) (fn c)"

definition spec_negative :: "ConfusionCounts \<Rightarrow> number" where
  "spec_negative c = jadd (tn c) (fp c)"

definition spec_total :: "ConfusionCounts \<Rightarrow> number" where
  "spec_total c = jadd (spec_positive c) (spec_negative c)"

definition spec_tpr :: "ConfusionCounts \<Rightarrow> number" where
  "spec_tpr c = spec_divide (tp c) (spec_positive c)"

definition spec_fnr :: "ConfusionCounts \<Rightarrow> number" where
  "spec_fnr c = spec_divide (fn c) (spec_positive c)"

definition spec_tnr :: "ConfusionCounts \<Rightarrow> number" where
  "spec_tnr c = spec_divide (tn c) (spec_negative c)"

definition spec_fpr :: "ConfusionCounts \<Rightarrow> number" where
  "spec_fpr c = spec_divide (fp c) (spec_negative c)"

definition spec_ppv :: "ConfusionCounts \<Rightarrow> number" where
  "spec_ppv c = spec_divide (tp c) (jadd (tp c) (fp c))"

definition spec_npv :: "ConfusionCounts \<Rightarrow> number" where
  "spec_npv c = spec_divide (tn c) (jadd (tn c) (fn c))"

definition spec_prevalence :: "ConfusionCounts \<Rightarrow> number" where
  "spec_prevalence c = spec_divide (spec_positive c) (spec_total c)"

definition spec_accuracy :: "ConfusionCounts \<Rightarrow> number" where
  "spec_accuracy c = spec_divide (jadd (tp c) (tn c)) (spec_total c)"

definition spec_fdr :: "ConfusionCounts \<Rightarrow> number" where
  "spec_fdr c = jsub (Fin 1) (spec_ppv c)"

definition spec_for :: "ConfusionCounts \<Rightarrow> number" where
  "spec_for c = jsub (Fin 1) (spec_npv c)"

definition spec_markedness :: "ConfusionCounts \<Rightarrow> number" where
  "spec_markedness c = jsub (jadd (spec_ppv c) (spec_npv c)) (Fin 1)"

definition spec_lrPlus :: "ConfusionCounts \<Rightarrow> number" where
  "spec_lrPlus c = spec_divide (spec_tpr c) (spec_fpr c)"

definition spec_lrMinus :: "ConfusionCounts \<Rightarrow> number" where
  "spec_lrMinus c = spec_divide (spec_fnr c) (spec_tnr c)"

definition spec_dor :: "ConfusionCounts \<Rightarrow> number" where
  "spec_dor c = spec_divide (jmul (tp c) (tn c)) (jmul (fp c) (fn c))"

definition spec_balancedAccuracy :: "ConfusionCounts \<Rightarrow> number" where
  "spec_balancedAccuracy c = jdiv (jadd (spec_tpr c) (spec_tnr c)) (Fin 2)"

definition spec_f1 :: "ConfusionCounts \<Rightarrow> number" where
  "spec_f1 c = spec_divide (jmul (Fin 2) (tp c))
                 (jadd (jadd (jmul (Fin 2) (tp c)) (fp c)) (fn c))"

definition spec_fm :: "ConfusionCounts \<Rightarrow> number" where
  "spec_fm c = jsqrt (jmul (spec_ppv c) (spec_tpr c))"

definition spec_mcc :: "ConfusionCounts \<Rightarrow> number" where
  "spec_mcc c = spec_divide (jsub (jmul (tp c) (tn c)) (jmul (fp c) (fn c)))
     (jsqrt (jmul (jmul (jmul (jadd (tp c) (fp c)) (jadd (tp c) (fn c))) (jadd (tn c) (fp c)))
        (jadd (tn c) (fn c))))"

definition spec_ts :: "ConfusionCounts \<Rightarrow> number" where
  "spec_ts c = spec_divide (tp c) (jadd (jadd (tp c) (fp c)) (fn c))"

section \<open>Binary exponents and rounding\<close>

lemma ilog2_bounds_ge1:
  assumes "1 \<le> x"
  shows "2 powi ilog2 x \<le> x \<and> x < 2 powi (ilog2 x + 1)"
proof -
  define n where "n = \<lfloor>x\<rfloor>"
  have n: "0 < n" using assms by (simp add: n_def)
  from bitlen_bounds [OF n] have b: "2 ^ nat (bitlen n - 1) \<le> n" "n < 2 ^ nat (bitlen n)"
    by simp_all
  have bl: "1 \<le> bitlen n" using n by (simp add: bitlen_alt_def)
  have "real_of_int (2 ^ nat (bitlen n - 1)) \<le> real_of_int n" using b(1) by linarith
  also have "\<dots> \<le> x" by (simp add: n_def)
  finally have lo: "2 powi (bitlen n - 1) \<le> x"
    using bl by (simp add: power_int_def)
  have "n + 1 \<le> 2 ^ nat (bitlen n)" using b(2) by simp
  then have "real_of_int (n + 1) \<le> real_of_int (2 ^ nat (bitlen n))" by linarith
  moreover have "x < real_of_int (n + 1)" by (simp add: n_def)
  ultimately have hi: "x < 2 powi (bitlen n)"
    using bl by (simp add: power_int_def)
  show ?thesis using lo hi assms by (simp add: ilog2_def n_def)
qed

lemma ilog2_bounds_lt1:
  assumes "0 < x" "x < 1"
  shows "2 powi ilog2 x \<le> x \<and> x < 2 powi (ilog2 x + 1)"
proof -
  define n where "n = \<lceil>1 / x\<rceil> - 1"
  have y: "1 < 1 / x" using assms by simp
  have n: "0 < n" using y by (simp add: n_def)
  from bitlen_bounds [OF n] have b: "2 ^ nat (bitlen n - 1) \<le> n" "n < 2 ^ nat (bitlen n)"
    by simp_all
  have bl: "1 \<le> bitlen n" using n by (simp add: bitlen_alt_def)
  have "real_of_int (2 ^ nat (bitlen n - 1)) \<le> real_of_int n" using b(1) by linarith
  also have "\<dots> < 1 / x" unfolding n_def by linarith
  finally have "2 ^ nat (bitlen n - 1) < 1 / x" by simp
  then have "x < 1 / 2 ^ nat (bitlen n - 1)"
    using assms by (simp add: field_simps)
  moreover have "2 powi (- bitlen n + 1) = 1 / (2::real) ^ nat (bitlen n - 1)"
    using bl power_int_minus [of "2::real" "bitlen n - 1"]
    by (simp add: power_int_nonneg_exp field_simps)
  ultimately have hi: "x < 2 powi (- bitlen n + 1)"
    by linarith
  have "n + 1 \<le> 2 ^ nat (bitlen n)" using b(2) by simp
  then have "real_of_int (n + 1) \<le> real_of_int (2 ^ nat (bitlen n))" by linarith
  moreover have "1 / x \<le> real_of_int (n + 1)" unfolding n_def by simp
  ultimately have "1 / x \<le> 2 ^ nat (bitlen n)" by simp
  then have "1 / 2 ^ nat (bitlen n) \<le> x" using assms by (simp add: field_simps)
  moreover have "2 powi (- bitlen n) = 1 / (2::real) ^ nat (bitlen n)"
    using bl power_int_minus [of "2::real" "bitlen n"]
    by (simp add: power_int_nonneg_exp field_simps)
  ultimately have lo: "2 powi (- bitlen n) \<le> x"
    by linarith
  show ?thesis using lo hi assms by (simp add: ilog2_def n_def)
qed

lemma ilog2_bounds:
  assumes "0 < x"
  shows "2 powi ilog2 x \<le> x" and "x < 2 powi (ilog2 x + 1)"
  using assms ilog2_bounds_ge1 [of x] ilog2_bounds_lt1 [of x] by (cases "1 \<le> x"; simp)+

lemma pow2_mono: "a \<le> b \<Longrightarrow> (2::real) powi a \<le> 2 powi b"
  by (rule power_int_increasing) simp_all

lemma pow2_strict_mono: "a < b \<Longrightarrow> (2::real) powi a < 2 powi b"
  by (rule power_int_strict_increasing) simp_all

lemma pow2_pos: "0 < (2::real) powi a"
  by simp

lemma ilog2_unique:
  assumes "2 powi k \<le> x" "x < 2 powi (k + 1)"
  shows "ilog2 x = k"
proof -
  have x: "0 < x" using assms(1) pow2_pos [of k] by linarith
  note b = ilog2_bounds [OF x]
  have "\<not> ilog2 x < k"
  proof
    assume "ilog2 x < k"
    then have "ilog2 x + 1 \<le> k" by simp
    from pow2_mono [OF this] b(2) assms(1) show False by linarith
  qed
  moreover have "\<not> k < ilog2 x"
  proof
    assume "k < ilog2 x"
    then have "k + 1 \<le> ilog2 x" by simp
    from pow2_mono [OF this] b(1) assms(2) show False by linarith
  qed
  ultimately show ?thesis by linarith
qed

lemma ilog2_mono:
  assumes "0 < x" "x \<le> y"
  shows "ilog2 x \<le> ilog2 y"
proof (rule ccontr)
  assume "\<not> ilog2 x \<le> ilog2 y"
  then have "ilog2 y + 1 \<le> ilog2 x" by simp
  from pow2_mono [OF this] ilog2_bounds(1) [OF assms(1)] ilog2_bounds(2) [of y] assms
  show False by linarith
qed

lemma ilog2_floor_log:
  assumes "0 < x"
  shows "ilog2 x = \<lfloor>log 2 x\<rfloor>"
proof -
  have p: "(2::real) powi k = 2 powr real_of_int k" for k
    by (simp add: powr_real_of_int power_int_def power_one_over inverse_eq_divide)
  from ilog2_bounds [OF assms]
  have "2 powr real_of_int (ilog2 x) \<le> x" "x < 2 powr real_of_int (ilog2 x + 1)"
    by (simp_all only: p)
  then have "real_of_int (ilog2 x) \<le> log 2 x" "log 2 x < real_of_int (ilog2 x + 1)"
    using assms by (simp_all add: le_log_iff log_less_iff)
  then have "\<lfloor>log 2 x\<rfloor> = ilog2 x" by (intro floor_unique) simp_all
  then show ?thesis by simp
qed

lemma rne_err: "\<bar>of_int (rne x) - x\<bar> \<le> 1 / 2"
  unfolding rne_def Let_def by (simp; linarith)

lemma rne_of_int: "rne (of_int n) = n"
  by (simp add: rne_def)

lemma rne_floor_le: "\<lfloor>x\<rfloor> \<le> rne x" and rne_le_floor: "rne x \<le> \<lfloor>x\<rfloor> + 1"
  by (simp_all add: rne_def Let_def)

lemma rne_mono:
  assumes "x \<le> y"
  shows "rne x \<le> rne y"
proof (cases "\<lfloor>x\<rfloor> = \<lfloor>y\<rfloor>")
  case True
  then show ?thesis using assms by (simp add: rne_def Let_def)
next
  case False
  then have "\<lfloor>x\<rfloor> + 1 \<le> \<lfloor>y\<rfloor>" using floor_mono [OF assms] by linarith
  then show ?thesis using rne_le_floor [of x] rne_floor_le [of y] by linarith
qed

lemma rne_le: "x \<le> of_int n \<Longrightarrow> rne x \<le> n"
  using rne_mono [of x "of_int n"] by (simp add: rne_of_int)

lemma rne_ge: "of_int n \<le> x \<Longrightarrow> n \<le> rne x"
  using rne_mono [of "of_int n" x] by (simp add: rne_of_int)

lemma rne_small:
  assumes "0 \<le> q" "q < 1 / 2"
  shows "rne q = 0"
proof -
  have "\<lfloor>q\<rfloor> = 0" using assms by (simp add: floor_eq_iff)
  then show ?thesis using assms by (simp add: rne_def)
qed

lemma rd_nonneg: "0 < x \<Longrightarrow> 0 \<le> rd x"
proof -
  assume "0 < x"
  then have "of_int 0 \<le> x / 2 powi ulp_exp x" by simp
  from rne_ge [OF this] show ?thesis by (simp add: rd_def)
qed

lemma rd_err: "\<bar>rd x - x\<bar> \<le> 2 powi ulp_exp x / 2"
proof -
  let ?p = "(2::real) powi ulp_exp x"
  have p: "0 < ?p" by simp
  have "rd x - x = (of_int (rne (x / ?p)) - x / ?p) * ?p"
    by (simp add: rd_def field_simps)
  then have "\<bar>rd x - x\<bar> = \<bar>of_int (rne (x / ?p)) - x / ?p\<bar> * ?p"
    by (simp add: abs_mult)
  also have "\<dots> \<le> 1 / 2 * ?p"
    by (rule mult_right_mono [OF rne_err]) simp
  finally show ?thesis by simp
qed

lemma rd_grid_le:
  assumes "x \<le> of_int n * 2 powi ulp_exp x"
  shows "rd x \<le> of_int n * 2 powi ulp_exp x"
proof -
  have "x / 2 powi ulp_exp x \<le> of_int n" using assms by (simp add: field_simps)
  from rne_le [OF this] show ?thesis by (simp add: rd_def)
qed

lemma rd_grid_ge:
  assumes "of_int n * 2 powi ulp_exp x \<le> x"
  shows "of_int n * 2 powi ulp_exp x \<le> rd x"
proof -
  have "of_int n \<le> x / 2 powi ulp_exp x" using assms by (simp add: field_simps)
  from rne_ge [OF this] show ?thesis by (simp add: rd_def)
qed

lemma rd_grid: "x = of_int n * 2 powi ulp_exp x \<Longrightarrow> rd x = x"
  using rd_grid_le [of x n] rd_grid_ge [of n x] by simp

lemma pow2_of_int: "0 \<le> j \<Longrightarrow> (2::real) powi j = of_int (2 ^ nat j)"
  by (simp add: power_int_nonneg_exp)

lemma pow2_add: "(2::real) powi (a + b) = 2 powi a * 2 powi b"
  by (simp add: power_int_add)

lemma pow2_diff: "(2::real) powi (a - b) = 2 powi a / 2 powi b"
  by (simp add: power_int_diff)

lemma ulp_exp_mono: "0 < x \<Longrightarrow> x \<le> y \<Longrightarrow> ulp_exp x \<le> ulp_exp y"
  using ilog2_mono [of x y] by (simp add: ulp_exp_def)

lemma rd_upper:
  assumes "0 < x"
  shows "rd x \<le> 2 powi (ilog2 x + 1)"
proof (cases "ulp_exp x \<le> ilog2 x + 1")
  case True
  define j where "j = ilog2 x + 1 - ulp_exp x"
  have j: "0 \<le> j" using True by (simp add: j_def)
  have "2 powi (ilog2 x + 1) = 2 powi j * (2::real) powi ulp_exp x"
    unfolding j_def pow2_diff by simp
  then have eq: "2 powi (ilog2 x + 1) = of_int (2 ^ nat j) * (2::real) powi ulp_exp x"
    using pow2_of_int [OF j] by simp
  have "x \<le> of_int (2 ^ nat j) * 2 powi ulp_exp x"
    using ilog2_bounds(2) [OF assms] eq by linarith
  from rd_grid_le [OF this] eq show ?thesis by linarith
next
  case False
  then have "ilog2 x + 1 \<le> ulp_exp x - 1" by simp
  from pow2_mono [OF this] ilog2_bounds(2) [OF assms]
  have "x < 2 powi (ulp_exp x - 1)" by linarith
  then have "x / 2 powi ulp_exp x < 1 / 2"
    by (simp add: pow2_diff field_simps)
  moreover have "0 \<le> x / 2 powi ulp_exp x" using assms by simp
  ultimately have "rne (x / 2 powi ulp_exp x) = 0"
    by (rule rne_small [rotated])
  then have "rd x = 0" by (simp add: rd_def)
  then show ?thesis by simp
qed

lemma rd_lower:
  assumes "0 < x" "ulp_exp x = ilog2 x - 52"
  shows "2 powi ilog2 x \<le> rd x"
proof -
  have "2 powi ilog2 x = 2 powi 52 * (2::real) powi ulp_exp x"
    unfolding assms(2) pow2_diff by simp
  then have eq: "2 powi ilog2 x = of_int (2 ^ 52) * (2::real) powi ulp_exp x"
    by simp
  have "of_int (2 ^ 52) * 2 powi ulp_exp x \<le> x"
    using ilog2_bounds(1) [OF assms(1)] eq by linarith
  from rd_grid_ge [OF this] eq show ?thesis by linarith
qed

lemma rd_mono:
  assumes "0 < x" "x \<le> y"
  shows "rd x \<le> rd y"
proof (cases "ulp_exp x = ulp_exp y")
  case True
  have "x / 2 powi ulp_exp y \<le> y / 2 powi ulp_exp y"
    using assms by (simp add: divide_right_mono)
  from rne_mono [OF this] show ?thesis
    by (simp add: rd_def True)
next
  case False
  have y: "0 < y" using assms by linarith
  from False ulp_exp_mono [OF assms] have lt: "ulp_exp x < ulp_exp y" by linarith
  then have ey: "ulp_exp y = ilog2 y - 52" by (simp add: ulp_exp_def max_def split: if_splits)
  have "ilog2 x - 52 \<le> ulp_exp x" by (simp add: ulp_exp_def)
  with lt ey have "ilog2 x + 1 \<le> ilog2 y" by linarith
  from pow2_mono [OF this] rd_upper [OF assms(1)] rd_lower [OF y ey]
  show ?thesis by linarith
qed

lemma rd_rel_err:
  assumes "0 < x" "- 1022 \<le> ilog2 x"
  shows "\<bar>rd x - x\<bar> \<le> x / 2 ^ 53"
proof -
  have e: "ulp_exp x = ilog2 x - 52" using assms(2) by (simp add: ulp_exp_def)
  have "2 powi ulp_exp x / 2 = 2 powi ilog2 x / (2::real) ^ 53"
    unfolding e pow2_diff by simp
  also have "\<dots> \<le> x / 2 ^ 53"
    using ilog2_bounds(1) [OF assms(1)] by (simp add: divide_right_mono)
  finally show ?thesis using rd_err [of x] by linarith
qed

section \<open>Arithmetic on non-negative numbers\<close>

lemma round64_not_NaN: "round64 x \<noteq> NaN"
  by (simp add: round64_def Let_def inf_signed_def zero_signed_def)

lemma round64_pos:
  "0 < x \<Longrightarrow> round64 x = (if 2 ^ 1024 \<le> rd x then PosInf else Fin (rd x))"
  by (simp add: round64_def Let_def inf_signed_def zero_signed_def)

lemma is_double_rd:
  assumes "is_double x" "0 < x"
  shows "rd x = x"
proof -
  from assms have "\<exists>n. x / 2 powi ulp_exp x = real_of_int n"
    by (simp add: is_double_def Let_def)
  then obtain n where "x / 2 powi ulp_exp x = real_of_int n" ..
  then have "x = of_int n * 2 powi ulp_exp x"
    by (simp add: field_simps)
  then show ?thesis by (rule rd_grid)
qed

lemma round64_double:
  assumes "is_double x" "0 \<le> x"
  shows "round64 x = Fin x"
proof (cases "x = 0")
  case True
  then show ?thesis by (simp add: round64_def)
next
  case False
  with assms have x: "0 < x" by simp
  moreover from assms False have "x < 2 ^ 1024" by (simp add: is_double_def)
  ultimately show ?thesis using is_double_rd [OF assms(1) x] by (simp add: round64_pos)
qed

lemma nat_is_double:
  assumes "n \<le> 2 ^ 53"
  shows "is_double (real n)"
proof (cases "n = 0")
  case True
  then show ?thesis by (simp add: is_double_def)
next
  case False
  define x where "x = real n"
  have x: "1 \<le> x" "x \<le> 2 ^ 53" using False assms unfolding x_def
    by (simp, metis of_nat_le_iff of_nat_numeral of_nat_power)
  have x0: "0 < x" using x by linarith
  have k0: "0 \<le> ilog2 x"
    using ilog2_mono [of 1 x] x(1) ilog2_unique [of 0 1] by simp
  have e: "ulp_exp x = ilog2 x - 52" using k0 by (simp add: ulp_exp_def)
  have int_q: "of_int \<lfloor>x / 2 powi ulp_exp x\<rfloor> = x / 2 powi ulp_exp x"
  proof (cases "ulp_exp x \<le> 0")
    case True
    have "x / 2 powi ulp_exp x = x * 2 powi (- ulp_exp x)"
      by (simp add: power_int_minus field_simps)
    also have "\<dots> = of_int (int n * 2 ^ nat (- ulp_exp x))"
      using True by (simp add: x_def power_int_nonneg_exp)
    finally show ?thesis by simp
  next
    case False
    then have "53 \<le> ilog2 x" using e by simp
    from pow2_mono [OF this] ilog2_bounds(1) [OF x0] have "2 ^ 53 \<le> x" by simp
    with x(2) have x53: "x = 2 ^ 53" by simp
    then have "ilog2 x = 53" by (intro ilog2_unique) simp_all
    then have "ulp_exp x = 1" using e by simp
    then show ?thesis by (simp add: x53)
  qed
  have "x < 2 ^ 1024" using x(2) by (rule le_less_trans) simp
  then show ?thesis using int_q x0 unfolding x_def [symmetric]
    by (simp add: is_double_def Let_def)
qed

lemma is_count_nonneg: "is_count a \<Longrightarrow> nonneg a"
  by (cases a) (simp_all add: is_count_def nonneg_def)

lemma is_double_zero: "is_double 0"
  by (simp add: is_double_def)

lemma is_count_double: "is_count a \<Longrightarrow> is_double (val a)"
  by (cases a) (simp_all add: is_count_def is_double_zero)

lemma is_count_val_nonneg: "is_count a \<Longrightarrow> 0 \<le> val a"
  by (cases a) (simp_all add: is_count_def)

lemma is_count_nat: "is_count a \<Longrightarrow> \<exists>n::nat. val a = real n"
proof (cases a)
  case (Fin x)
  assume "is_count a"
  with Fin have x: "0 \<le> x" "\<exists>n. x = real_of_int n" by (simp_all add: is_count_def)
  then obtain n where "x = real_of_int n" by auto
  with x(1) have "x = real (nat n)" by simp
  with Fin show ?thesis by auto
qed (auto simp: is_count_def intro: exI [of _ 0])

lemma jadd_fin:
  assumes "nonneg a" "nonneg b" "a \<noteq> PosInf" "b \<noteq> PosInf"
  shows "jadd a b = (if val a + val b = 0 then (if a = NegZero \<and> b = NegZero then NegZero else Fin 0)
     else if 2 ^ 1024 \<le> rd (val a + val b) then PosInf else Fin (rd (val a + val b)))"
proof -
  have v: "0 \<le> val a" "0 \<le> val b" using assms by (cases a; cases b; simp add: nonneg_def)+
  have n: "a \<noteq> NaN" "b \<noteq> NaN" "\<not> is_inf a" "\<not> is_inf b"
    using assms by (cases a; cases b; simp add: nonneg_def is_inf_def)+
  show ?thesis
  proof (cases "val a + val b = 0")
    case True
    then show ?thesis using n by (simp add: jadd_def round64_def)
  next
    case False
    then have "0 < val a + val b" using v by linarith
    moreover from False have "\<not> (a = NegZero \<and> b = NegZero)" by auto
    ultimately show ?thesis using n False by (simp add: jadd_def round64_pos)
  qed
qed


lemma jadd_inf: "nonneg a \<Longrightarrow> nonneg b \<Longrightarrow> a = PosInf \<or> b = PosInf \<Longrightarrow> jadd a b = PosInf"
  by (cases a; cases b; simp add: nonneg_def jadd_def is_inf_def)

lemma jadd_nonneg:
  assumes "nonneg a" "nonneg b"
  shows "nonneg (jadd a b)"
proof (cases "a = PosInf \<or> b = PosInf")
  case True
  with assms show ?thesis by (simp add: jadd_inf nonneg_def)
next
  case False
  have v: "0 \<le> val a" "0 \<le> val b" using assms by (cases a; cases b; simp add: nonneg_def)+
  have "val a + val b \<noteq> 0 \<Longrightarrow> 0 \<le> rd (val a + val b)"
    using v by (intro rd_nonneg) linarith
  with False assms show ?thesis by (simp add: jadd_fin nonneg_def)
qed

lemma jadd_mono:
  assumes "nonneg a" "nonneg b" "nonneg a'" "nonneg b'" "num_le a a'" "num_le b b'"
  shows "num_le (jadd a b) (jadd a' b')"
proof (cases "a' = PosInf \<or> b' = PosInf")
  case True
  with assms have "jadd a' b' = PosInf" by (simp add: jadd_inf)
  moreover have "jadd a b \<noteq> NaN" using jadd_nonneg [OF assms(1,2)] by (auto simp: nonneg_def)
  ultimately show ?thesis by (simp add: num_le_def)
next
  case False
  with assms(5,6) have fin: "a \<noteq> PosInf" "b \<noteq> PosInf" "a' \<noteq> PosInf" "b' \<noteq> PosInf"
    and le: "val a \<le> val a'" "val b \<le> val b'"
    using assms(1-4) by (auto simp: num_le_def nonneg_def)
  have v: "0 \<le> val a" "0 \<le> val b" using assms by (cases a; cases b; simp add: nonneg_def)+
  show ?thesis
  proof (cases "val a + val b = 0")
    case True
    have "nonneg (jadd a' b')" using assms by (simp add: jadd_nonneg)
    then have "jadd a' b' \<noteq> NaN" "jadd a' b' \<noteq> NegInf" "0 \<le> val (jadd a' b')"
      by (cases "jadd a' b'"; simp add: nonneg_def)+
    moreover have "jadd a b = NegZero \<or> jadd a b = Fin 0"
      using True assms fin by (simp add: jadd_fin)
    ultimately show ?thesis by (auto simp: num_le_def)
  next
    case nz: False
    then have s: "0 < val a + val b" using v by linarith
    have s': "val a + val b \<le> val a' + val b'" using le by linarith
    note m = rd_mono [OF s s']
    have "val a' + val b' \<noteq> 0" using s s' by linarith
    then show ?thesis using nz assms fin m
      by (simp add: jadd_fin num_le_def)
  qed
qed

lemma le_jadd_left:
  assumes "nonneg a" "nonneg b" "is_double (val a)"
  shows "num_le a (jadd a b)"
proof (cases "a = PosInf \<or> b = PosInf")
  case True
  with assms show ?thesis by (auto simp: jadd_inf num_le_def nonneg_def)
next
  case False
  have v: "0 \<le> val a" "0 \<le> val b" using assms by (cases a; cases b; simp add: nonneg_def)+
  have an: "a \<noteq> NaN" using assms(1) by (auto simp: nonneg_def)
  show ?thesis
  proof (cases "val a = 0")
    case True
    have "nonneg (jadd a b)" using assms by (simp add: jadd_nonneg)
    then have "jadd a b \<noteq> NaN" "jadd a b \<noteq> NegInf" "0 \<le> val (jadd a b)"
      by (cases "jadd a b"; simp add: nonneg_def)+
    then show ?thesis using True an False by (auto simp: num_le_def)
  next
    case nz: False
    then have a0: "0 < val a" using v by linarith
    have "rd (val a) \<le> rd (val a + val b)" using a0 v by (intro rd_mono) simp_all
    then have "val a \<le> rd (val a + val b)" using is_double_rd [OF assms(3) a0] by simp
    moreover have "val a + val b \<noteq> 0" using a0 v by linarith
    ultimately show ?thesis using False assms an
      by (simp add: jadd_fin num_le_def)
  qed
qed


lemma jadd_commute: "jadd a b = jadd b a"
proof -
  have "val a + val b = val b + val a" by simp
  then show ?thesis unfolding jadd_def by (cases a; cases b; simp add: is_inf_def add.commute)
qed

lemma le_jadd_right: "nonneg a \<Longrightarrow> nonneg b \<Longrightarrow> is_double (val b) \<Longrightarrow> num_le b (jadd a b)"
  using le_jadd_left [of b a] by (simp add: jadd_commute)

lemma rd_one: "rd 1 = 1"
proof -
  have "ilog2 1 = 0" by (rule ilog2_unique) simp_all
  then have "ulp_exp 1 = - 52" by (simp add: ulp_exp_def)
  then have "(1::real) = of_int (2 ^ 52) * 2 powi ulp_exp 1"
    by (simp add: power_int_minus)
  then show ?thesis by (rule rd_grid)
qed


lemma divide_unit:
  assumes "nonneg a" "nonneg b" "num_le a b"
  shows "divide_num a b = NaN \<or> in_unit (divide_num a b)"
proof (cases "is_zero b \<or> a = PosInf")
  case True
  then show ?thesis using assms
    by (auto simp: divide_num_def num_eq_def is_zero_def jdiv_def num_le_def is_inf_def)
next
  case False
  then have nz: "\<not> is_zero b" and a: "a \<noteq> PosInf" by simp_all
  have an: "a \<noteq> NaN" "\<not> is_inf a" "b \<noteq> NaN" "\<not> signbit b \<or> b = NegZero" "0 \<le> val a"
    using assms a by (cases a; cases b; simp add: nonneg_def is_inf_def)+
  have d: "divide_num a b = jdiv a b"
    using nz an by (auto simp: divide_num_def num_eq_def is_zero_def)
  show ?thesis
  proof (cases "b = PosInf")
    case True
    then show ?thesis using an d
      by (simp add: jdiv_def is_inf_def zero_signed_def in_unit_def)
  next
    case bf: False
    then have b: "\<not> is_inf b" "0 < val b" "\<not> signbit b"
      using assms(2) nz by (cases b; simp add: nonneg_def is_inf_def is_zero_def)+
    have le: "val a \<le> val b"
      using assms bf a by (cases a; cases b; simp add: nonneg_def num_le_def)
    show ?thesis
    proof (cases "is_zero a")
      case True
      then show ?thesis using an b nz d
        by (simp add: jdiv_def zero_signed_def in_unit_def)
    next
      case az: False
      then have a0: "0 < val a" using a assms(1) by (cases a; simp add: is_zero_def nonneg_def)
      then have q: "0 < val a / val b" "val a / val b \<le> 1" using b le by simp_all
      from rd_mono [OF q] have "rd (val a / val b) \<le> 1" by (simp add: rd_one)
      moreover have "0 \<le> rd (val a / val b)" using q(1) by (rule rd_nonneg)
      moreover have "jdiv a b = round64 (val a / val b)"
        using an b nz az by (simp add: jdiv_def)
      ultimately show ?thesis using d q(1)
        by (simp add: round64_pos in_unit_def)
    qed
  qed
qed

lemma divide_num_spec: "divide_num n d = spec_divide n d"
  by (auto simp: divide_num_def spec_divide_def num_eq_def is_zero_def)

lemma computeMetricsFromCounts_fields:
  "computeMetricsFromCounts c =
     \<lparr>tp = tp c, tn = tn c, fp = fp c, fn = fn c,
      total = spec_total c, prevalence = spec_prevalence c, tpr = spec_tpr c,
      fpr = spec_fpr c, fnr = spec_fnr c, tnr = spec_tnr c, ppv = spec_ppv c,
      npv = spec_npv c, lrPlus = spec_lrPlus c, lrMinus = spec_lrMinus c,
      accuracy = spec_accuracy c, fdr = spec_fdr c, for' = spec_for c,
      markedness = spec_markedness c, dor = spec_dor c,
      balancedAccuracy = spec_balancedAccuracy c, f1 = spec_f1 c, fm = spec_fm c,
      mcc = spec_mcc c, ts = spec_ts c\<rparr>"
  unfolding computeMetricsFromCounts_def Let_def divide_num_spec
    spec_total_def spec_prevalence_def spec_tpr_def spec_fpr_def spec_fnr_def spec_tnr_def
    spec_ppv_def spec_npv_def spec_lrPlus_def spec_lrMinus_def spec_accuracy_def spec_fdr_def
    spec_for_def spec_markedness_def spec_dor_def spec_balancedAccuracy_def spec_f1_def
    spec_fm_def spec_mcc_def spec_ts_def spec_positive_def spec_negative_def
  by (rule refl)

lemma jneg_NaN: "jneg x = NaN \<longleftrightarrow> x = NaN"
  by (cases x) simp_all

lemma jadd_NaN_fin: "jadd (Fin x) b = NaN \<longleftrightarrow> b = NaN"
  by (auto simp: jadd_def is_inf_def round64_not_NaN)

lemma one_minus_NaN: "jsub (Fin 1) x = NaN \<longleftrightarrow> x = NaN"
  by (simp add: jsub_def jadd_NaN_fin jneg_NaN)

lemma jadd_Fin: "jadd (Fin x) (Fin y) = round64 (x + y)"
  by (simp add: jadd_def is_inf_def)

lemma jdiv_Fin:
  "y \<noteq> 0 \<Longrightarrow> jdiv (Fin x) (Fin y) =
     (if x = 0 then zero_signed (y < 0) else round64 (x / y))"
  by (simp add: jdiv_def is_inf_def is_zero_def)

lemma divide_num_Fin:
  "y \<noteq> 0 \<Longrightarrow> divide_num (Fin x) (Fin y) =
     (if x = 0 then zero_signed (y < 0) else round64 (x / y))"
  by (simp add: divide_num_def num_eq_def is_zero_def jdiv_Fin)

lemma jmul_Fin:
  "jmul (Fin x) (Fin y) =
     (if x * y = 0 then zero_signed ((x < 0) \<noteq> (y < 0)) else round64 (x * y))"
  by (simp add: jmul_def is_inf_def)

lemma jsub_Fin: "jsub (Fin x) (Fin y) = round64 (x - y)"
  by (simp add: jsub_def jadd_def is_inf_def)

lemma is_count_of_nat: "n \<le> 2 ^ 53 \<Longrightarrow> is_count (Fin (real n))"
  by (simp add: is_count_def nat_is_double)

lemma round64_of_nat: "n \<le> 2 ^ 53 \<Longrightarrow> round64 (real n) = Fin (real n)"
  by (simp add: round64_double nat_is_double)

lemmas round64_eval = round64_def rd_def ulp_exp_def ilog2_def rne_def compute_bitlen Let_def
  inf_signed_def zero_signed_def

lemma ulp_exp_rd:
  assumes "0 < x" "0 < rd x"
  shows "ulp_exp (rd x) = ulp_exp x \<or>
    (ulp_exp (rd x) = ulp_exp x + 1 \<and> rd x = 2 powi (ulp_exp x + 53))"
proof (cases "ulp_exp x = ilog2 x - 52")
  case True
  note lo = rd_lower [OF assms(1) True]
  note hi = rd_upper [OF assms(1)]
  show ?thesis
  proof (cases "rd x < 2 powi (ilog2 x + 1)")
    case lt: True
    from ilog2_unique [OF lo lt] show ?thesis by (simp add: ulp_exp_def)
  next
    case False
    with hi have eq: "rd x = 2 powi (ilog2 x + 1)" by simp
    have "ilog2 (rd x) = ilog2 x + 1"
      unfolding eq by (rule ilog2_unique) (simp_all add: pow2_strict_mono)
    then have "ulp_exp (rd x) = ulp_exp x + 1"
      using True by (simp add: ulp_exp_def)
    moreover have "ilog2 x + 1 = ulp_exp x + 53" using True by simp
    then have "rd x = 2 powi (ulp_exp x + 53)" using eq by (simp only:)
    ultimately show ?thesis by simp
  qed
next
  case False
  then have e: "ulp_exp x = - 1074" and k: "ilog2 x + 1 \<le> - 1022"
    by (simp_all add: ulp_exp_def max_def split: if_splits)
  from rd_upper [OF assms(1)] pow2_mono [OF k] have r: "rd x \<le> 2 powi (- 1022)" by linarith
  have "ilog2 (rd x) \<le> - 1022"
  proof (rule ccontr)
    assume "\<not> ilog2 (rd x) \<le> - 1022"
    then have "- 1021 \<le> ilog2 (rd x)" by simp
    from pow2_mono [OF this] ilog2_bounds(1) [OF assms(2)] r
    have "(2::real) powi (- 1021) \<le> 2 powi (- 1022)" by linarith
    moreover have "(2::real) powi (- 1022) < 2 powi (- 1021)" by (rule pow2_strict_mono) simp
    ultimately show False by linarith
  qed
  then show ?thesis using e by (simp add: ulp_exp_def)
qed

lemma rd_is_double:
  assumes "0 < x" "rd x < 2 ^ 1024"
  shows "is_double (rd x)"
proof (cases "rd x = 0")
  case True
  then show ?thesis by (simp add: is_double_zero)
next
  case False
  with rd_nonneg [OF assms(1)] have r: "0 < rd x" by simp
  have "\<exists>n. rd x / 2 powi ulp_exp (rd x) = real_of_int n"
    using ulp_exp_rd [OF assms(1) r]
  proof
    assume "ulp_exp (rd x) = ulp_exp x"
    then have "rd x / 2 powi ulp_exp (rd x) = real_of_int (rne (x / 2 powi ulp_exp x))"
      by (simp add: rd_def)
    then show ?thesis ..
  next
    assume a: "ulp_exp (rd x) = ulp_exp x + 1 \<and> rd x = 2 powi (ulp_exp x + 53)"
    then have a1: "ulp_exp (rd x) = ulp_exp x + 1" and a2: "rd x = 2 powi (ulp_exp x + 53)"
      by (rule conjunct1, rule conjunct2)
    have "rd x / 2 powi ulp_exp (rd x) = rd x / 2 powi (ulp_exp x + 1)"
      by (simp only: a1)
    also have "\<dots> = 2 powi (ulp_exp x + 53) / 2 powi (ulp_exp x + 1)"
      by (simp only: a2)
    also have "\<dots> = 2 powi 52"
      by (simp add: pow2_diff [symmetric])
    also have "\<dots> = real_of_int (2 ^ 52)" by simp
    finally show ?thesis ..
  qed
  then show ?thesis using r assms(2) by (simp add: is_double_def Let_def)
qed

lemma round64_is_double: "round64 x = Fin r \<Longrightarrow> is_double r"
proof -
  assume a: "round64 x = Fin r"
  show ?thesis
  proof (cases "x = 0")
    case True
    with a show ?thesis by (simp add: round64_def is_double_zero)
  next
    case False
    then have p: "0 < \<bar>x\<bar>" by simp
    from a False have lt: "rd \<bar>x\<bar> < 2 ^ 1024" and r: "r = rd \<bar>x\<bar> \<or> r = - rd \<bar>x\<bar>"
      by (auto simp: round64_def Let_def inf_signed_def zero_signed_def split: if_splits)
    from rd_is_double [OF p lt] have "is_double (rd \<bar>x\<bar>)" .
    moreover have "is_double (- y) = is_double y" for y by (simp add: is_double_def)
    ultimately show ?thesis using r by auto
  qed
qed

lemma rd_of_nat_integer:
  assumes "0 < n"
  shows "\<exists>m::nat. rd (real n) = real m"
proof (cases "ulp_exp (real n) \<le> 0")
  case True
  have "real n = of_int (int n * 2 ^ nat (- ulp_exp (real n))) * 2 powi ulp_exp (real n)"
    using True by (simp add: power_int_def field_simps power_one_over)
  then have "rd (real n) = real n" by (rule rd_grid)
  then show ?thesis ..
next
  case False
  then have e: "0 \<le> ulp_exp (real n)" by simp
  have x: "0 < real n" using assms by simp
  have "0 \<le> x / 2 powi ulp_exp (real n)" if "0 < x" for x :: real using that by simp
  have m: "0 \<le> rne (real n / 2 powi ulp_exp (real n))"
    using rne_ge [of 0 "real n / 2 powi ulp_exp (real n)"] by simp
  have "rd (real n) = real (nat (rne (real n / 2 powi ulp_exp (real n))) * 2 ^ nat (ulp_exp (real n)))"
    using e m by (simp add: rd_def power_int_nonneg_exp)
  then show ?thesis ..
qed

lemma rne_near:
  assumes "\<bar>q - of_int m\<bar> < 1 / 2"
  shows "rne q = m"
proof (cases "of_int m \<le> q")
  case True
  then have "\<lfloor>q\<rfloor> = m" using assms by (auto simp: floor_eq_iff)
  then show ?thesis using assms True by (simp add: rne_def)
next
  case False
  then have "\<lfloor>q\<rfloor> = m - 1" using assms by (auto simp: floor_eq_iff)
  then show ?thesis using assms False by (auto simp: rne_def Let_def)
qed

lemma round64_sqrt:
  fixes m e :: int
  assumes "2 ^ 52 < m" "m < 2 ^ 53" "- 1074 \<le> e" "of_int m * 2 powi e < (2::real) ^ 1024"
    and "((of_int m - 1 / 2) * 2 powi e)\<^sup>2 < x" "x < ((of_int m + 1 / 2) * 2 powi e)\<^sup>2"
  shows "round64 (sqrt x) = Fin (of_int m * 2 powi e)"
proof -
  let ?p = "(2::real) powi e"
  have p: "0 < ?p" by simp
  from assms(1,2) have "(2::int) ^ 52 + 1 \<le> m" "m + 1 \<le> (2::int) ^ 53" by simp_all
  then have "real_of_int (2 ^ 52 + 1) \<le> real_of_int m" "real_of_int (m + 1) \<le> real_of_int (2 ^ 53)"
    by (simp_all only: of_int_le_iff)
  then have m: "(2::real) ^ 52 + 1 \<le> of_int m" "real_of_int m + 1 \<le> 2 ^ 53"
    by simp_all
  have lo0: "0 \<le> (of_int m - 1 / 2) * ?p" using m(1) by simp
  have hi0: "0 < (of_int m + 1 / 2) * ?p" using m(1) by (intro mult_pos_pos) simp_all
  have lo: "(of_int m - 1 / 2) * ?p < sqrt x"
    using assms(5) by (rule real_less_rsqrt)
  have hi: "sqrt x < (of_int m + 1 / 2) * ?p"
    using assms(6) hi0 by (intro real_less_lsqrt) simp_all
  have y: "0 < sqrt x" using lo lo0 by linarith
  have "2 ^ 52 * ?p \<le> (of_int m - 1 / 2) * ?p"
    using m(1) by (intro mult_right_mono) simp_all
  moreover have "2 powi (e + 52) = 2 ^ 52 * ?p" by (simp add: pow2_add)
  ultimately have b1: "2 powi (e + 52) \<le> sqrt x" using lo by linarith
  have "(of_int m + 1 / 2) * ?p \<le> 2 ^ 53 * ?p"
    using m(2) by (intro mult_right_mono) simp_all
  moreover have "2 powi (e + 52 + 1) = 2 ^ 53 * ?p" by (simp add: pow2_add)
  ultimately have b2: "sqrt x < 2 powi (e + 52 + 1)" using hi by linarith
  have "ilog2 (sqrt x) = e + 52" using b1 b2 by (rule ilog2_unique)
  then have u: "ulp_exp (sqrt x) = e" using assms(3) by (simp add: ulp_exp_def)
  have "of_int m - 1 / 2 < sqrt x / ?p" "sqrt x / ?p < of_int m + 1 / 2"
    using lo hi p by (simp_all add: pos_less_divide_eq pos_divide_less_eq)
  then have "\<bar>sqrt x / ?p - of_int m\<bar> < 1 / 2" by linarith
  then have "rne (sqrt x / ?p) = m" by (rule rne_near)
  then have "rd (sqrt x) = of_int m * ?p" by (simp add: rd_def u)
  then show ?thesis using y assms(4) by (simp add: round64_pos)
qed

section \<open>Counting labels\<close>

lemma lower_char_same_letter:
  assumes "97 \<le> (of_char l :: nat)" "(of_char l :: nat) \<le> 122"
  shows "lower_char c = l \<longleftrightarrow> same_letter c l"
proof (cases "65 \<le> (of_char c :: nat) \<and> (of_char c :: nat) \<le> 90")
  case True
  then have ne: "c \<noteq> l" using assms by auto
  have "char_of ((of_char c :: nat) + 32) = l \<longleftrightarrow> (of_char c :: nat) + 32 = of_char l"
  proof
    assume "char_of ((of_char c :: nat) + 32) = l"
    then have "(of_char (char_of ((of_char c :: nat) + 32)) :: nat) = of_char l" by simp
    then show "(of_char c :: nat) + 32 = of_char l" using True by simp
  next
    assume "(of_char c :: nat) + 32 = of_char l"
    then show "char_of ((of_char c :: nat) + 32) = l" by simp
  qed
  then show ?thesis using True ne by (simp add: lower_char_def same_letter_def)
next
  case False
  then have "(of_char c :: nat) + 32 \<noteq> of_char l" using assms by auto
  then show ?thesis using False by (auto simp: lower_char_def same_letter_def)
qed

lemma toLowerCase_true:
  "toLowerCase s = ''true'' \<longleftrightarrow> list_all2 same_letter s ''true''"
proof -
  have l: "lower_char c = CHR ''t'' \<longleftrightarrow> same_letter c CHR ''t''"
    "lower_char c = CHR ''r'' \<longleftrightarrow> same_letter c CHR ''r''"
    "lower_char c = CHR ''u'' \<longleftrightarrow> same_letter c CHR ''u''"
    "lower_char c = CHR ''e'' \<longleftrightarrow> same_letter c CHR ''e''" for c
    by (rule lower_char_same_letter; simp)+
  show ?thesis
    by (auto simp: toLowerCase_def list_all2_Cons2 map_eq_Cons_conv l)
qed

lemma isPositive_spec: "isPositive pv v = spec_isPositive pv v"
  by (cases v) (auto simp: isPositive_def spec_isPositive_def toLowerCase_true num_eq_def is_zero_def)

lemma jadd_one:
  assumes "n < 2 ^ 53"
  shows "jadd (Fin (real n)) (Fin 1) = Fin (real (Suc n))"
proof -
  have "Suc n \<le> 2 ^ 53" using assms by simp
  from round64_of_nat [OF this] show ?thesis
    by (simp add: jadd_Fin add.commute)
qed

lemma count_step_counts:
  assumes "i < length predicted" "length actual = length predicted"
    and "t1 < 2 ^ 53" "t2 < 2 ^ 53" "t3 < 2 ^ 53" "t4 < 2 ^ 53"
  shows "count_step pv predicted actual i
           \<lparr>tp = Fin (real t1), tn = Fin (real t2), fp = Fin (real t3), fn = Fin (real t4)\<rparr> =
         (let p = spec_isPositive pv (predicted ! i); a = spec_isPositive pv (actual ! i) in
          \<lparr>tp = Fin (real (t1 + (if p \<and> a then 1 else 0))),
           tn = Fin (real (t2 + (if \<not> p \<and> \<not> a then 1 else 0))),
           fp = Fin (real (t3 + (if p \<and> \<not> a then 1 else 0))),
           fn = Fin (real (t4 + (if \<not> p \<and> a then 1 else 0)))\<rparr>)"
  using assms
  by (simp add: count_step_def Let_def at_index_def isPositive_spec jadd_one del: of_nat_Suc)

lemma count_loop_counts:
  assumes "length actual = length predicted"
  shows "i \<le> length predicted \<Longrightarrow> t1 + t2 + t3 + t4 + (length predicted - i) \<le> 2 ^ 53 \<Longrightarrow>
    count_loop pv predicted actual i
      \<lparr>tp = Fin (real t1), tn = Fin (real t2), fp = Fin (real t3), fn = Fin (real t4)\<rparr> =
    \<lparr>tp = Fin (real (t1 + length (filter (\<lambda>j. spec_isPositive pv (predicted ! j) = True \<and>
               spec_isPositive pv (actual ! j) = True) [i..<length predicted]))),
     tn = Fin (real (t2 + length (filter (\<lambda>j. spec_isPositive pv (predicted ! j) = False \<and>
               spec_isPositive pv (actual ! j) = False) [i..<length predicted]))),
     fp = Fin (real (t3 + length (filter (\<lambda>j. spec_isPositive pv (predicted ! j) = True \<and>
               spec_isPositive pv (actual ! j) = False) [i..<length predicted]))),
     fn = Fin (real (t4 + length (filter (\<lambda>j. spec_isPositive pv (predicted ! j) = False \<and>
               spec_isPositive pv (actual ! j) = True) [i..<length predicted])))\<rparr>"
proof (induction "length predicted - i" arbitrary: i t1 t2 t3 t4)
  case 0
  then have "\<not> i < length predicted" by simp
  moreover from 0 have "[i..<length predicted] = []" by simp
  ultimately show ?case by (simp add: count_loop.simps [of pv predicted actual i])
next
  case (Suc k)
  then have i: "i < length predicted" by simp
  have b: "t1 < 2 ^ 53" "t2 < 2 ^ 53" "t3 < 2 ^ 53" "t4 < 2 ^ 53"
    using Suc.prems(2) i by simp_all
  define p where "p = spec_isPositive pv (predicted ! i)"
  define a where "a = spec_isPositive pv (actual ! i)"
  define d1 :: nat where "d1 = (if p \<and> a then 1 else 0)"
  define d2 :: nat where "d2 = (if \<not> p \<and> \<not> a then 1 else 0)"
  define d3 :: nat where "d3 = (if p \<and> \<not> a then 1 else 0)"
  define d4 :: nat where "d4 = (if \<not> p \<and> a then 1 else 0)"
  have step: "count_step pv predicted actual i
       \<lparr>tp = Fin (real t1), tn = Fin (real t2), fp = Fin (real t3), fn = Fin (real t4)\<rparr> =
     \<lparr>tp = Fin (real (t1 + d1)), tn = Fin (real (t2 + d2)),
      fp = Fin (real (t3 + d3)), fn = Fin (real (t4 + d4))\<rparr>"
    unfolding count_step_counts [OF i assms b] Let_def d1_def d2_def d3_def d4_def p_def a_def
    by (rule refl)
  have k: "k = length predicted - Suc i" using Suc.hyps(2) by simp
  have s: "Suc i \<le> length predicted" using i by simp
  have "d1 + d2 + d3 + d4 = 1" by (simp add: d1_def d2_def d3_def d4_def)
  then have bound: "(t1 + d1) + (t2 + d2) + (t3 + d3) + (t4 + d4) + (length predicted - Suc i)
      \<le> 2 ^ 53"
    using Suc.prems(2) i by linarith
  have u: "[i..<length predicted] = i # [Suc i..<length predicted]"
    using i by (simp add: upt_conv_Cons)
  have f: "length (filter (\<lambda>j. spec_isPositive pv (predicted ! j) = True \<and>
               spec_isPositive pv (actual ! j) = True) [i..<length predicted]) =
           d1 + length (filter (\<lambda>j. spec_isPositive pv (predicted ! j) = True \<and>
               spec_isPositive pv (actual ! j) = True) [Suc i..<length predicted])"
         "length (filter (\<lambda>j. spec_isPositive pv (predicted ! j) = False \<and>
               spec_isPositive pv (actual ! j) = False) [i..<length predicted]) =
           d2 + length (filter (\<lambda>j. spec_isPositive pv (predicted ! j) = False \<and>
               spec_isPositive pv (actual ! j) = False) [Suc i..<length predicted])"
         "length (filter (\<lambda>j. spec_isPositive pv (predicted ! j) = True \<and>
               spec_isPositive pv (actual ! j) = False) [i..<length predicted]) =
           d3 + length (filter (\<lambda>j. spec_isPositive pv (predicted ! j) = True \<and>
               spec_isPositive pv (actual ! j) = False) [Suc i..<length predicted])"
         "length (filter (\<lambda>j. spec_isPositive pv (predicted ! j) = False \<and>
               spec_isPositive pv (actual ! j) = True) [i..<length predicted]) =
           d4 + length (filter (\<lambda>j. spec_isPositive pv (predicted ! j) = False \<and>
               spec_isPositive pv (actual ! j) = True) [Suc i..<length predicted])"
    unfolding u by (simp_all add: d1_def d2_def d3_def d4_def p_def a_def)
  have "count_loop pv predicted actual i
       \<lparr>tp = Fin (real t1), tn = Fin (real t2), fp = Fin (real t3), fn = Fin (real t4)\<rparr> =
     count_loop pv predicted actual (Suc i)
       \<lparr>tp = Fin (real (t1 + d1)), tn = Fin (real (t2 + d2)),
        fp = Fin (real (t3 + d3)), fn = Fin (real (t4 + d4))\<rparr>"
    using i by (subst count_loop.simps) (simp only: step if_True)
  also note Suc.hyps(1) [OF k s bound]
  finally show ?case unfolding f by (simp only: add.assoc)
qed

lemma counts_eq_buckets:
  assumes "length predicted = length actual" "js_array predicted"
  shows "computeCountsFromLabels predicted actual pv =
     Inr \<lparr>tp = Fin (real (bucket pv predicted actual True True)),
          tn = Fin (real (bucket pv predicted actual False False)),
          fp = Fin (real (bucket pv predicted actual True False)),
          fn = Fin (real (bucket pv predicted actual False True))\<rparr>"
proof -
  have "length predicted < 2 ^ 32" using assms(2) by (simp add: js_array_def)
  then have "0 + 0 + 0 + 0 + (length predicted - 0) \<le> (2::nat) ^ 53" by simp
  from count_loop_counts [OF assms(1) [symmetric] le0 this, of pv]
  show ?thesis using assms(1) by (simp add: computeCountsFromLabels_def bucket_def)
qed

lemma filter_partition4:
  "length (filter (\<lambda>j. P j = True \<and> Q j = True) xs) +
   length (filter (\<lambda>j. P j = False \<and> Q j = False) xs) +
   length (filter (\<lambda>j. P j = True \<and> Q j = False) xs) +
   length (filter (\<lambda>j. P j = False \<and> Q j = True) xs) = length xs"
  by (induction xs) auto

lemma bucket_sum:
  "bucket pv predicted actual True True + bucket pv predicted actual False False +
   bucket pv predicted actual True False + bucket pv predicted actual False True =
   length predicted"
  unfolding bucket_def
  using filter_partition4 [of "\<lambda>j. spec_isPositive pv (predicted ! j)"
      "\<lambda>j. spec_isPositive pv (actual ! j)" "[0..<length predicted]"]
  by simp

lemma bucket_le: "bucket pv predicted actual pb ab \<le> length predicted"
  unfolding bucket_def
  using length_filter_le [of _ "[0..<length predicted]"] by simp

lemma count_step_swap:
  "count_step pv actual predicted i (c\<lparr>fp := fn c, fn := fp c\<rparr>) =
   (count_step pv predicted actual i c)\<lparr>fp := fn (count_step pv predicted actual i c),
      fn := fp (count_step pv predicted actual i c)\<rparr>"
  by (simp add: count_step_def Let_def)

lemma count_loop_swap:
  assumes "length actual = length predicted"
  shows "count_loop pv actual predicted i (c\<lparr>fp := fn c, fn := fp c\<rparr>) =
   (count_loop pv predicted actual i c)\<lparr>fp := fn (count_loop pv predicted actual i c),
      fn := fp (count_loop pv predicted actual i c)\<rparr>"
  using assms
proof (induction pv predicted actual i c rule: count_loop.induct)
  case (1 pv predicted actual i c)
  show ?case
  proof (cases "i < length predicted")
    case True
    let ?c' = "count_step pv predicted actual i c"
    have "count_loop pv actual predicted i (c\<lparr>fp := fn c, fn := fp c\<rparr>) =
        count_loop pv actual predicted (Suc i) (?c'\<lparr>fp := fn ?c', fn := fp ?c'\<rparr>)"
      using True "1.prems"
      by (subst count_loop.simps) (simp only: count_step_swap if_True)
    also have "\<dots> = (count_loop pv predicted actual (Suc i) ?c')\<lparr>
        fp := fn (count_loop pv predicted actual (Suc i) ?c'),
        fn := fp (count_loop pv predicted actual (Suc i) ?c')\<rparr>"
      by (rule "1.IH" [OF True "1.prems"])
    also have "count_loop pv predicted actual (Suc i) ?c' = count_loop pv predicted actual i c"
      using True by (subst (2) count_loop.simps) simp
    finally show ?thesis .
  next
    case False
    then show ?thesis using "1.prems"
      by (simp add: count_loop.simps [of _ _ _ i])
  qed
qed

section \<open>Sums and quotients of counts\<close>

lemma rd_err_lt2:
  assumes "0 < x" "x < 2"
  shows "\<bar>rd x - x\<bar> \<le> 1 / 2 ^ 53"
proof -
  have "\<not> 1 \<le> ilog2 x"
  proof
    assume "1 \<le> ilog2 x"
    from pow2_mono [OF this] ilog2_bounds(1) [OF assms(1)] assms(2) show False by simp
  qed
  then have "ulp_exp x \<le> - 52" by (simp add: ulp_exp_def)
  from pow2_mono [OF this] have "2 powi ulp_exp x \<le> 1 / (2::real) ^ 52"
    by (simp add: power_int_minus inverse_eq_divide)
  then show ?thesis using rd_err [of x] by simp
qed

lemma divide_num_err:
  assumes "nonneg x" "x \<noteq> PosInf" "0 < p" "val x \<le> p"
  shows "nonneg (divide_num x (Fin p)) \<and> divide_num x (Fin p) \<noteq> PosInf \<and>
     \<bar>val (divide_num x (Fin p)) - val x / p\<bar> \<le> 1 / 2 ^ 53"
proof (cases "is_zero x")
  case True
  then show ?thesis using assms(3)
    by (auto simp: divide_num_def num_eq_def is_zero_def jdiv_def is_inf_def zero_signed_def
        nonneg_def)
next
  case False
  have x: "x \<noteq> NaN" "\<not> is_inf x" "0 < val x"
    using assms(1,2) False by (cases x; simp add: nonneg_def is_inf_def is_zero_def)+
  have d: "divide_num x (Fin p) = round64 (val x / p)"
    using x False assms(3) by (simp add: divide_num_def num_eq_def is_zero_def jdiv_def is_inf_def)
  have q: "0 < val x / p" "val x / p \<le> 1" using x(3) assms(3,4) by simp_all
  from rd_mono [OF q] have r1: "rd (val x / p) \<le> 1" by (simp add: rd_one)
  have r0: "0 \<le> rd (val x / p)" using q(1) by (rule rd_nonneg)
  have "val x / p < 2" using q(2) by linarith
  from rd_err_lt2 [OF q(1) this] show ?thesis
    using d q(1) r0 r1 by (simp add: round64_pos nonneg_def)
qed

lemma ratio_sum_near_one:
  assumes "is_count a" "is_count b" "jadd a b = Fin p" "p \<noteq> 0"
  shows "near_one (jadd (divide_num a (Fin p)) (divide_num b (Fin p)))"
proof -
  define s where "s = val a + val b"
  define eps :: real where "eps = 1 / 2 ^ 53"
  have eps: "0 < eps" "eps \<le> 1 / 16" "8 * eps = 1 / 2 ^ 50" by (simp_all add: eps_def)
  have n: "nonneg a" "nonneg b" and f: "a \<noteq> PosInf" "b \<noteq> PosInf"
    and g: "a \<noteq> NegInf" "b \<noteq> NegInf"
    using assms(1,2) by (auto simp: is_count_nonneg is_count_def)
  have v: "0 \<le> val a" "0 \<le> val b" using assms(1,2) by (simp_all add: is_count_val_nonneg)
  have s0: "s \<noteq> 0" and p: "p = rd s"
    using jadd_fin [OF n f] assms(3,4) by (auto simp: s_def split: if_splits)
  from is_count_nat [OF assms(1)] is_count_nat [OF assms(2)]
  obtain k m :: nat where km: "val a = real k" "val b = real m" by auto
  then have "s = real (k + m)" by (simp add: s_def)
  with s0 have s1: "1 \<le> s" by (cases "k + m") simp_all
  then have spos: "0 < s" by linarith
  have "0 \<le> ilog2 s" using ilog2_mono [of 1 s] s1 ilog2_unique [of 0 1] by simp
  then have "- 1022 \<le> ilog2 s" by linarith
  from rd_rel_err [OF spos this] have e: "\<bar>p - s\<bar> \<le> s * eps" by (simp add: p eps_def)
  moreover have "s * eps \<le> s * (1 / 2)"
    using spos eps by (intro mult_left_mono) simp_all
  ultimately have ps: "s / 2 \<le> p" by simp
  then have ppos: "0 < p" using spos by linarith
  have "num_le a (jadd a b)" "num_le b (jadd a b)"
    using n assms(1,2) by (simp_all add: le_jadd_left le_jadd_right is_count_double)
  then have le: "val a \<le> p" "val b \<le> p"
    using f g by (auto simp: assms(3) num_le_def)
  note da = divide_num_err [OF n(1) f(1) ppos le(1)]
  note db = divide_num_err [OF n(2) f(2) ppos le(2)]
  define t where "t = val (divide_num a (Fin p))"
  define u where "u = val (divide_num b (Fin p))"
  have tu: "\<bar>t - val a / p\<bar> \<le> eps" "\<bar>u - val b / p\<bar> \<le> eps"
    using da db by (simp_all add: t_def u_def eps_def)
  have sp: "val a / p + val b / p = s / p" by (simp add: s_def add_divide_distrib)
  have "\<bar>s / p - 1\<bar> \<le> 2 * eps"
  proof -
    have "s / p - 1 = (s - p) / p" using ppos by (simp add: field_simps)
    then have "\<bar>s / p - 1\<bar> = \<bar>p - s\<bar> / p" using ppos by (simp add: abs_minus_commute)
    also have "\<dots> \<le> (s * eps) / p"
      by (rule divide_right_mono [OF e]) (use ppos in simp)
    also have "\<dots> = (s / p) * eps" by simp
    also have "\<dots> \<le> 2 * eps"
    proof -
      have "s / p \<le> 2" using ps ppos by (simp add: field_simps)
      then show ?thesis using eps(1) by (intro mult_right_mono) simp_all
    qed
    finally show ?thesis .
  qed
  with sp tu have sum: "\<bar>(t + u) - 1\<bar> \<le> 4 * eps" by linarith
  then have r: "0 < t + u" "t + u < 2" using eps by linarith+
  from rd_err_lt2 [OF r] have re: "\<bar>rd (t + u) - (t + u)\<bar> \<le> eps" by (simp add: eps_def)
  have "jadd (divide_num a (Fin p)) (divide_num b (Fin p)) = Fin (rd (t + u))"
  proof -
    have "rd (t + u) < 3" using re r eps by linarith
    also have "(3::real) < 2 ^ 1024" by simp
    finally have "\<not> 2 ^ 1024 \<le> rd (t + u)" by simp
    moreover have "t + u \<noteq> 0" using r by simp
    ultimately show ?thesis
      using jadd_fin [of "divide_num a (Fin p)" "divide_num b (Fin p)"] da db
      unfolding t_def u_def by simp
  qed
  moreover have "\<bar>rd (t + u) - 1\<bar> \<le> 1 / 2 ^ 50" using re sum eps by linarith
  ultimately show ?thesis by (simp add: near_one_def)
qed

lemma nonzero_finite_count_sum:
  assumes "is_count a" "is_count b" "\<not> is_zero (jadd a b)" "jadd a b \<noteq> PosInf"
  shows "\<exists>p. jadd a b = Fin p \<and> p \<noteq> 0"
proof -
  have "nonneg (jadd a b)" using assms(1,2) by (simp add: jadd_nonneg is_count_nonneg)
  then show ?thesis using assms(3,4)
    by (cases "jadd a b") (simp_all add: nonneg_def is_zero_def)
qed

lemma ilog2_pow2: "0 \<le> k \<Longrightarrow> ilog2 (2 ^ nat k) = k"
  by (rule ilog2_unique) (simp_all add: power_int_def nat_add_distrib)

lemma is_count_2_1023: "is_count (Fin (2 ^ 1023))"
proof -
  define x :: real where "x = 2 ^ 1023"
  have x: "0 < x" "x < 2 ^ 1024" "real_of_int \<lfloor>x\<rfloor> = x" by (simp_all add: x_def)
  have "ilog2 x = 1023" unfolding x_def using ilog2_pow2 [of 1023] by simp
  then have u: "ulp_exp x = 971" by (simp add: ulp_exp_def)
  have "x / 2 powi 971 = of_int (2 ^ 52)" by (simp add: x_def power_int_def)
  then have "real_of_int \<lfloor>x / 2 powi 971\<rfloor> = x / 2 powi 971" by (simp only: floor_of_int)
  then have "is_double x" unfolding is_double_def Let_def using x by (simp add: u)
  then have "is_count (Fin x)" using x by (simp add: is_count_def)
  then show ?thesis by (simp only: x_def)
qed

lemma overflow_sum: "jadd (Fin (2 ^ 1023)) (Fin (2 ^ 1023)) = PosInf"
proof -
  define x :: real where "x = 2 ^ 1024"
  have x: "0 < x" "2 ^ 1024 \<le> x" by (simp_all add: x_def)
  have "ilog2 x = 1024" unfolding x_def using ilog2_pow2 [of 1024] by simp
  then have u: "ulp_exp x = 972" by (simp add: ulp_exp_def)
  have e: "of_int (2 ^ 52) * 2 powi ulp_exp x = x"
    unfolding u by (simp add: x_def power_int_def)
  have "rd x = x" by (rule rd_grid [of x "2 ^ 52"]) (simp only: e)
  then have "round64 x = PosInf" using x by (simp add: round64_pos)
  moreover have "(2::real) ^ 1023 + 2 ^ 1023 = x" by (simp add: x_def)
  ultimately show ?thesis by (simp only: jadd_Fin)
qed

lemma is_count_zero: "is_count (Fin 0)"
  by (simp add: is_count_def is_double_zero)

lemma overflow_fields:
  fixes c :: ConfusionCounts
  defines "c \<equiv> \<lparr>tp = Fin (2 ^ 1023), tn = Fin 0, fp = Fin 0, fn = Fin (2 ^ 1023)\<rparr>"
  shows "valid_counts c" and "spec_positive c = PosInf" and "spec_total c = PosInf"
    and "spec_tpr c = Fin 0" and "spec_fnr c = Fin 0"
proof -
  have sel: "tp c = Fin (2 ^ 1023)" "tn c = Fin 0" "fp c = Fin 0" "fn c = Fin (2 ^ 1023)"
    unfolding c_def by (simp_all only: ConfusionCounts.select_convs)
  show "valid_counts c"
    unfolding valid_counts_def sel by (intro conjI is_count_2_1023 is_count_zero)
  show p: "spec_positive c = PosInf"
    unfolding spec_positive_def sel by (rule overflow_sum)
  have "spec_negative c = Fin 0"
    unfolding spec_negative_def sel by (simp add: jadd_Fin round64_def)
  then show "spec_total c = PosInf"
    unfolding spec_total_def p by (simp add: jadd_def is_inf_def)
  have d: "spec_divide (Fin (2 ^ 1023)) PosInf = Fin 0"
    by (simp add: spec_divide_def is_zero_def jdiv_def is_inf_def zero_signed_def)
  show "spec_tpr c = Fin 0" "spec_fnr c = Fin 0"
    unfolding spec_tpr_def spec_fnr_def p sel by (rule d)+
qed

lemma jadd_count_exact:
  assumes "is_count a" "is_count b" "val a + val b \<le> 2 ^ 53"
  shows "is_count (jadd a b) \<and> val (jadd a b) = val a + val b"
proof -
  have n: "nonneg a" "nonneg b" and f: "a \<noteq> PosInf" "b \<noteq> PosInf"
    using assms(1,2) by (auto simp: is_count_nonneg is_count_def)
  from is_count_nat [OF assms(1)] is_count_nat [OF assms(2)]
  obtain k m :: nat where km: "val a = real k" "val b = real m" by auto
  then have s: "val a + val b = real (k + m)" by simp
  with assms(3) have "real (k + m) \<le> real (2 ^ 53)" by simp
  then have b: "k + m \<le> 2 ^ 53" by (simp only: of_nat_le_iff)
  show ?thesis
  proof (cases "val a + val b = 0")
    case True
    then show ?thesis using jadd_fin [OF n f] by (auto simp: is_count_def is_double_zero)
  next
    case False
    then have pos: "0 < real (k + m)" using s by simp
    have d: "is_double (real (k + m))" using b by (rule nat_is_double)
    have "real (k + m) < 2 ^ 1024" using d pos by (simp add: is_double_def)
    then have "jadd a b = Fin (real (k + m))"
      using jadd_fin [OF n f] False is_double_rd [OF d pos] by (simp add: s)
    then show ?thesis using is_count_of_nat [OF b] by (simp add: s)
  qed
qed

lemma spec_divide_zero: "is_zero d \<Longrightarrow> spec_divide n d = NaN"
  by (simp add: spec_divide_def)

lemma test_counts:
  fixes c :: ConfusionCounts
  defines "c \<equiv> \<lparr>tp = Fin 70, tn = Fin 100, fp = Fin 10, fn = Fin 20\<rparr>"
  shows "valid_counts c" and "jadd (Fin 70) (Fin 20) = Fin 90"
    and "jadd (Fin 100) (Fin 10) = Fin 110" and "jadd (Fin 90) (Fin 110) = Fin 200"
proof -
  show "valid_counts c"
    using is_count_of_nat [of 70] is_count_of_nat [of 100] is_count_of_nat [of 10]
      is_count_of_nat [of 20]
    by (simp add: valid_counts_def c_def)
  show "jadd (Fin 70) (Fin 20) = Fin 90" "jadd (Fin 100) (Fin 10) = Fin 110"
    "jadd (Fin 90) (Fin 110) = Fin 200"
    using round64_of_nat [of 90] round64_of_nat [of 110] round64_of_nat [of 200]
    by (simp_all add: jadd_Fin)
qed

lemma jadd_count_or_inf:
  assumes "is_count a \<or> a = PosInf" "is_count b \<or> b = PosInf"
  shows "is_count (jadd a b) \<or> jadd a b = PosInf"
proof (cases "a = PosInf \<or> b = PosInf")
  case True
  have "nonneg PosInf" by (simp add: nonneg_def)
  then have "nonneg a" "nonneg b" using assms by (auto simp: is_count_nonneg)
  with True show ?thesis by (simp add: jadd_inf)
next
  case False
  with assms have ic: "is_count a" "is_count b" by simp_all
  then have n: "nonneg a" "nonneg b" by (simp_all add: is_count_nonneg)
  from False have f: "a \<noteq> PosInf" "b \<noteq> PosInf" by simp_all
  from is_count_nat [OF ic(1)] is_count_nat [OF ic(2)]
  obtain k m :: nat where km: "val a = real k" "val b = real m" by auto
  then have s: "val a + val b = real (k + m)" by simp
  show ?thesis
  proof (cases "k + m = 0")
    case True
    then show ?thesis using jadd_fin [OF n f] s by (auto simp: is_count_def is_double_zero)
  next
    case nz: False
    then have pos: "0 < k + m" by simp
    define x where "x = real (k + m)"
    have rpos: "0 < x" unfolding x_def using pos by (simp only: of_nat_0_less_iff)
    have sx: "val a + val b = x" "val a + val b \<noteq> 0" using s rpos by (simp_all add: x_def)
    from rd_of_nat_integer [OF pos] obtain j :: nat where j: "rd x = real j"
      unfolding x_def ..
    show ?thesis
    proof (cases "2 ^ 1024 \<le> rd x")
      case True
      then show ?thesis using jadd_fin [OF n f] sx by simp
    next
      case False
      then have "is_double (rd x)" using rpos by (intro rd_is_double) simp_all
      then have "is_count (Fin (rd x))" unfolding j by (simp add: is_count_def)
      then show ?thesis using jadd_fin [OF n f] sx False by simp
    qed
  qed
qed

lemma is_count_num_eq:
  assumes "is_count a" "is_count b" "val a = val b"
  shows "num_eq a b"
  using assms by (cases a; cases b; simp add: is_count_def num_eq_def is_zero_def)

section \<open>The repository's test of the metrics\<close>

text \<open>
  The test \<open>computes metrics from counts\<close> of the repository calls
  \<open>computeMetricsFromCounts({ tp: 70, fp: 10, fn: 20, tn: 100 })\<close>. The model gives the
  binary64 values below, and they meet the expectations of the test: \<open>total\<close> is 200,
  \<open>tpr\<close>, \<open>tnr\<close> and \<open>npv\<close> are within \<open>5 / 10 ^ 7\<close> of the expected decimals, \<open>ppv\<close> is
  0.875, \<open>f1\<close> and \<open>ts\<close> are the quotients \<open>140 / 170\<close> and \<open>70 / 100\<close>, and \<open>mcc\<close> is
  above 0.6.
\<close>

lemma sqrt_test_product: "jsqrt (Fin 95040000) = Fin (2679742407118807 / 274877906944)"
proof -
  have "round64 (sqrt 95040000) = Fin (of_int 5359484814237614 * 2 powi (- 39))"
    by (rule round64_sqrt) (simp_all add: power_int_minus power2_eq_square)
  then show ?thesis by (simp add: power_int_minus)
qed

lemma repository_test_metrics:
  fixes m :: ConfusionMetrics
  defines "m \<equiv> computeMetricsFromCounts \<lparr>tp = Fin 70, tn = Fin 100, fp = Fin 10, fn = Fin 20\<rparr>"
  shows "total m = Fin 200"
    and "tpr m = Fin (7005599420354105 / 9007199254740992)"
    and "tnr m = Fin (8188362958855447 / 9007199254740992)"
    and "ppv m = Fin (7 / 8)"
    and "npv m = Fin (7505999378950827 / 9007199254740992)"
    and "f1 m = Fin (3708846751952173 / 4503599627370496)"
    and "ts m = Fin (3152519739159347 / 4503599627370496)"
    and "mcc m = Fin (6282687652946019 / 9007199254740992)"
proof -
  have a: "jadd (Fin 70) (Fin 20) = Fin 90" "jadd (Fin 100) (Fin 10) = Fin 110"
    "jadd (Fin 90) (Fin 110) = Fin 200" "jadd (Fin 70) (Fin 10) = Fin 80"
    "jadd (Fin 100) (Fin 20) = Fin 120" "jmul (Fin 2) (Fin 70) = Fin 140"
    "jadd (Fin 140) (Fin 10) = Fin 150" "jadd (Fin 150) (Fin 20) = Fin 170"
    "jadd (Fin 80) (Fin 20) = Fin 100" "jmul (Fin 70) (Fin 100) = Fin 7000"
    "jmul (Fin 10) (Fin 20) = Fin 200" "jsub (Fin 7000) (Fin 200) = Fin 6800"
    "jmul (Fin 80) (Fin 90) = Fin 7200" "jmul (Fin 7200) (Fin 110) = Fin 792000"
    "jmul (Fin 792000) (Fin 120) = Fin 95040000"
    using round64_of_nat [of 90] round64_of_nat [of 110] round64_of_nat [of 200]
      round64_of_nat [of 80] round64_of_nat [of 120] round64_of_nat [of 140]
      round64_of_nat [of 150] round64_of_nat [of 170] round64_of_nat [of 100]
      round64_of_nat [of 7000] round64_of_nat [of 6800] round64_of_nat [of 7200]
      round64_of_nat [of 792000] round64_of_nat [of 95040000]
    by (simp_all add: jadd_Fin jmul_Fin jsub_Fin)
  have d: "spec_divide (Fin 70) (Fin 90) = Fin (7005599420354105 / 9007199254740992)"
    "spec_divide (Fin 100) (Fin 110) = Fin (8188362958855447 / 9007199254740992)"
    "spec_divide (Fin 70) (Fin 80) = Fin (7 / 8)"
    "spec_divide (Fin 100) (Fin 120) = Fin (7505999378950827 / 9007199254740992)"
    "spec_divide (Fin 140) (Fin 170) = Fin (3708846751952173 / 4503599627370496)"
    "spec_divide (Fin 70) (Fin 100) = Fin (3152519739159347 / 4503599627370496)"
    "spec_divide (Fin 6800) (Fin (2679742407118807 / 274877906944)) =
       Fin (6282687652946019 / 9007199254740992)"
    by (simp_all add: divide_num_spec [symmetric] divide_num_Fin round64_eval)
  show "total m = Fin 200" "tpr m = Fin (7005599420354105 / 9007199254740992)"
    "tnr m = Fin (8188362958855447 / 9007199254740992)" "ppv m = Fin (7 / 8)"
    "npv m = Fin (7505999378950827 / 9007199254740992)"
    "f1 m = Fin (3708846751952173 / 4503599627370496)"
    "ts m = Fin (3152519739159347 / 4503599627370496)"
    "mcc m = Fin (6282687652946019 / 9007199254740992)"
    unfolding m_def
    by (simp_all add: computeMetricsFromCounts_fields spec_total_def spec_positive_def
        spec_negative_def spec_tpr_def spec_tnr_def spec_ppv_def spec_npv_def spec_f1_def
        spec_ts_def spec_mcc_def a d sqrt_test_product del: jsqrt.simps)
qed

lemma repository_test_expectations:
  "\<bar>7005599420354105 / 9007199254740992 - 0.7777777777\<bar> < (5 / 10 ^ 7 :: real) \<and>
   \<bar>8188362958855447 / 9007199254740992 - 0.9090909090\<bar> < (5 / 10 ^ 7 :: real) \<and>
   \<bar>7505999378950827 / 9007199254740992 - 0.8333333333\<bar> < (5 / 10 ^ 7 :: real) \<and>
   (0.6 :: real) < 6282687652946019 / 9007199254740992"
  by simp

section \<open>The claims\<close>

text \<open>
  C1. For every \<open>ConfusionCounts\<close> input, \<open>computeMetricsFromCounts\<close> returns each
  derived field equal to the formula of section 4.2 of the specification: every ratio is
  computed with \<open>divide\<close>, which returns NaN when the denominator is zero and the
  quotient otherwise, while \<open>fdr\<close> and \<open>for\<close> are \<open>1 - ppv\<close> and \<open>1 - npv\<close> by
  direct subtraction, and so are NaN exactly when \<open>ppv\<close>, respectively \<open>npv\<close>, is NaN.
\<close>

theorem metrics_follow_spec_formulas:
  "(\<forall>n d. divide_num n d = (if is_zero d then NaN else jdiv n d)) \<and>
   computeMetricsFromCounts c =
     \<lparr>tp = tp c, tn = tn c, fp = fp c, fn = fn c,
      total = spec_total c, prevalence = spec_prevalence c, tpr = spec_tpr c,
      fpr = spec_fpr c, fnr = spec_fnr c, tnr = spec_tnr c, ppv = spec_ppv c,
      npv = spec_npv c, lrPlus = spec_lrPlus c, lrMinus = spec_lrMinus c,
      accuracy = spec_accuracy c, fdr = spec_fdr c, for' = spec_for c,
      markedness = spec_markedness c, dor = spec_dor c,
      balancedAccuracy = spec_balancedAccuracy c, f1 = spec_f1 c, fm = spec_fm c,
      mcc = spec_mcc c, ts = spec_ts c\<rparr> \<and>
   (fdr (computeMetricsFromCounts c) = NaN \<longleftrightarrow> ppv (computeMetricsFromCounts c) = NaN) \<and>
   (for' (computeMetricsFromCounts c) = NaN \<longleftrightarrow> npv (computeMetricsFromCounts c) = NaN)"
  by (simp add: computeMetricsFromCounts_fields spec_fdr_def spec_for_def one_minus_NaN
      divide_num_spec spec_divide_def)

theorem metrics_follow_spec_formulas_witness:
  "ppv (computeMetricsFromCounts \<lparr>tp = Fin 70, tn = Fin 100, fp = Fin 10, fn = Fin 20\<rparr>)
     = Fin (7 / 8) \<and>
   fdr (computeMetricsFromCounts \<lparr>tp = Fin 70, tn = Fin 100, fp = Fin 10, fn = Fin 20\<rparr>)
     = Fin (1 / 8) \<and>
   f1 (computeMetricsFromCounts \<lparr>tp = Fin 70, tn = Fin 100, fp = Fin 10, fn = Fin 20\<rparr>)
     = Fin (3708846751952173 / 4503599627370496) \<and>
   ts (computeMetricsFromCounts \<lparr>tp = Fin 70, tn = Fin 100, fp = Fin 10, fn = Fin 20\<rparr>)
     = Fin (3152519739159347 / 4503599627370496) \<and>
   accuracy (computeMetricsFromCounts \<lparr>tp = Fin 70, tn = Fin 100, fp = Fin 10, fn = Fin 20\<rparr>)
     = Fin (7656119366529843 / 9007199254740992) \<and>
   total (computeMetricsFromCounts \<lparr>tp = Fin 70, tn = Fin 100, fp = Fin 10, fn = Fin 20\<rparr>)
     = Fin 200"
proof -
  have a: "jadd (Fin 70) (Fin 10) = Fin 80" "jadd (Fin 70) (Fin 100) = Fin 170"
    "jmul (Fin 2) (Fin 70) = Fin 140" "jadd (Fin 140) (Fin 10) = Fin 150"
    "jadd (Fin 150) (Fin 20) = Fin 170" "jadd (Fin 80) (Fin 20) = Fin 100"
    using round64_of_nat [of 80] round64_of_nat [of 170] round64_of_nat [of 140]
      round64_of_nat [of 150] round64_of_nat [of 100]
    by (simp_all add: jadd_Fin jmul_Fin)
  have d: "spec_divide (Fin 70) (Fin 80) = Fin (7 / 8)"
    "spec_divide (Fin 140) (Fin 170) = Fin (3708846751952173 / 4503599627370496)"
    "spec_divide (Fin 70) (Fin 100) = Fin (3152519739159347 / 4503599627370496)"
    "spec_divide (Fin 170) (Fin 200) = Fin (7656119366529843 / 9007199254740992)"
    by (simp_all add: divide_num_spec [symmetric] divide_num_Fin round64_eval)
  have s: "jsub (Fin 1) (Fin (7 / 8)) = Fin (1 / 8)"
    by (simp add: jsub_Fin round64_eval)
  show ?thesis
    using metrics_follow_spec_formulas [of "\<lparr>tp = Fin 70, tn = Fin 100, fp = Fin 10, fn = Fin 20\<rparr>"]
    by (simp add: spec_ppv_def spec_fdr_def spec_f1_def spec_ts_def spec_accuracy_def
        spec_total_def spec_positive_def spec_negative_def test_counts a d s)
qed

text \<open>
  C2. For every pair of arrays of equal length, \<open>computeCountsFromLabels\<close> returns the
  numbers of indexes in each bucket (\<open>tp\<close>: both positive, \<open>fp\<close>: predicted positive
  only, \<open>fn\<close>: actual positive only, \<open>tn\<close>: neither), an element being positive as the
  rule of section 4.1 says (\<open>spec_isPositive\<close>): when \<open>positiveValue\<close> is supplied, iff it
  strictly equals \<open>positiveValue\<close>; otherwise a boolean iff it is \<open>true\<close>, a number iff it
  equals 1, a string iff it is \<open>"1"\<close> or case-insensitively \<open>"true"\<close>, and a value of any
  other type never; no error is raised.
\<close>

theorem counts_are_bucket_sizes:
  assumes "length predicted = length actual" "js_array predicted"
  shows "computeCountsFromLabels predicted actual positiveValue =
     Inr \<lparr>tp = Fin (real (bucket positiveValue predicted actual True True)),
          tn = Fin (real (bucket positiveValue predicted actual False False)),
          fp = Fin (real (bucket positiveValue predicted actual True False)),
          fn = Fin (real (bucket positiveValue predicted actual False True))\<rparr>"
  using assms by (rule counts_eq_buckets)

theorem counts_are_bucket_sizes_witness:
  "length [JBool True, JBool True, JBool False, JBool False] =
     length [JBool True, JBool False, JBool True, JBool False] \<and>
   js_array [JBool True, JBool True, JBool False, JBool False] \<and>
   computeCountsFromLabels [JBool True, JBool True, JBool False, JBool False]
     [JBool True, JBool False, JBool True, JBool False] JUndefined =
     Inr \<lparr>tp = Fin 1, tn = Fin 1, fp = Fin 1, fn = Fin 1\<rparr> \<and>
   length [JStr ''pos'', JStr ''pos'', JStr ''neg'', JStr ''neg''] =
     length [JStr ''pos'', JStr ''neg'', JStr ''pos'', JStr ''neg''] \<and>
   js_array [JStr ''pos'', JStr ''pos'', JStr ''neg'', JStr ''neg''] \<and>
   computeCountsFromLabels [JStr ''pos'', JStr ''pos'', JStr ''neg'', JStr ''neg'']
     [JStr ''pos'', JStr ''neg'', JStr ''pos'', JStr ''neg''] (JStr ''pos'') =
     Inr \<lparr>tp = Fin 1, tn = Fin 1, fp = Fin 1, fn = Fin 1\<rparr> \<and>
   computeCountsFromLabels [JStr ''TrUe'', JStr ''1'', JNum (Fin 1), JNull, JStr ''yes'']
     [JStr ''true'', JStr ''TRUE'', JNum NegZero, JNull, JBool True] JUndefined =
     Inr \<lparr>tp = Fin 2, tn = Fin 1, fp = Fin 1, fn = Fin 1\<rparr>"
  using counts_are_bucket_sizes [of "[JBool True, JBool True, JBool False, JBool False]"
      "[JBool True, JBool False, JBool True, JBool False]" JUndefined]
    counts_are_bucket_sizes [of "[JStr ''pos'', JStr ''pos'', JStr ''neg'', JStr ''neg'']"
      "[JStr ''pos'', JStr ''neg'', JStr ''pos'', JStr ''neg'']" "JStr ''pos''"]
    counts_are_bucket_sizes [of "[JStr ''TrUe'', JStr ''1'', JNum (Fin 1), JNull, JStr ''yes'']"
     "[JStr ''true'', JStr ''TRUE'', JNum NegZero, JNull, JBool True]" JUndefined]
  by (simp add: js_array_def bucket_def spec_isPositive_def same_letter_def upt_rec)

text \<open>
  C3. \<open>computeCountsFromLabels\<close> fails with the length-mismatch error exactly when
  \<open>predicted.length\<close> differs from \<open>actual.length\<close>, and then returns no counts; when the
  lengths are equal it returns counts and never fails.
\<close>

theorem length_mismatch_iff:
  "(computeCountsFromLabels predicted actual pv = Inl LengthMismatchError \<longleftrightarrow>
      length predicted \<noteq> length actual) \<and>
   ((\<exists>c. computeCountsFromLabels predicted actual pv = Inr c) \<longleftrightarrow>
      length predicted = length actual) \<and>
   ((\<exists>e. computeCountsFromLabels predicted actual pv = Inl e) \<longleftrightarrow>
      length predicted \<noteq> length actual)"
  by (simp add: computeCountsFromLabels_def)

theorem length_mismatch_iff_witness:
  "length [JBool True] \<noteq> length [JBool True, JBool False] \<and>
   computeCountsFromLabels [JBool True] [JBool True, JBool False] JUndefined =
     Inl LengthMismatchError \<and>
   length [JBool True, JBool False] = length [JBool False, JBool False] \<and>
   (\<exists>c. computeCountsFromLabels [JBool True, JBool False] [JBool False, JBool False] JUndefined =
      Inr c)"
  using length_mismatch_iff [of "[JBool True]" "[JBool True, JBool False]" JUndefined]
    length_mismatch_iff [of "[JBool True, JBool False]" "[JBool False, JBool False]" JUndefined]
  by simp

text \<open>
  C4. \<open>computeMetricsFromCounts\<close> raises no error for any \<open>ConfusionCounts\<close> (its source
  has no \<open>throw\<close>, and arithmetic on numbers raises nothing, so the function is total):
  every field whose denominator is zero is NaN in the result; in particular the counts
  \<open>{tp: 0, tn: 0, fp: 0, fn: 0}\<close> give \<open>total = 0\<close> and NaN in every other derived field.
\<close>

theorem degenerate_counts_give_NaN:
  "computeMetricsFromCounts \<lparr>tp = Fin 0, tn = Fin 0, fp = Fin 0, fn = Fin 0\<rparr> =
     \<lparr>tp = Fin 0, tn = Fin 0, fp = Fin 0, fn = Fin 0,
      total = Fin 0, prevalence = NaN, tpr = NaN, fpr = NaN, fnr = NaN, tnr = NaN,
      ppv = NaN, npv = NaN, lrPlus = NaN, lrMinus = NaN, accuracy = NaN, fdr = NaN,
      for' = NaN, markedness = NaN, dor = NaN, balancedAccuracy = NaN, f1 = NaN,
      fm = NaN, mcc = NaN, ts = NaN\<rparr> \<and>
   (is_zero (jadd (tp c) (fn c)) \<longrightarrow>
      tpr (computeMetricsFromCounts c) = NaN \<and> fnr (computeMetricsFromCounts c) = NaN) \<and>
   (is_zero (jadd (tn c) (fp c)) \<longrightarrow>
      tnr (computeMetricsFromCounts c) = NaN \<and> fpr (computeMetricsFromCounts c) = NaN) \<and>
   (is_zero (jadd (tp c) (fp c)) \<longrightarrow>
      ppv (computeMetricsFromCounts c) = NaN \<and> fdr (computeMetricsFromCounts c) = NaN) \<and>
   (is_zero (jadd (tn c) (fn c)) \<longrightarrow>
      npv (computeMetricsFromCounts c) = NaN \<and> for' (computeMetricsFromCounts c) = NaN) \<and>
   (is_zero (total (computeMetricsFromCounts c)) \<longrightarrow>
      prevalence (computeMetricsFromCounts c) = NaN \<and>
      accuracy (computeMetricsFromCounts c) = NaN) \<and>
   (is_zero (fpr (computeMetricsFromCounts c)) \<longrightarrow> lrPlus (computeMetricsFromCounts c) = NaN) \<and>
   (is_zero (tnr (computeMetricsFromCounts c)) \<longrightarrow> lrMinus (computeMetricsFromCounts c) = NaN) \<and>
   (is_zero (jmul (fp c) (fn c)) \<longrightarrow> dor (computeMetricsFromCounts c) = NaN) \<and>
   (is_zero (jadd (jadd (jmul (Fin 2) (tp c)) (fp c)) (fn c)) \<longrightarrow>
      f1 (computeMetricsFromCounts c) = NaN) \<and>
   (is_zero (jsqrt (jmul (jmul (jmul (jadd (tp c) (fp c)) (jadd (tp c) (fn c)))
        (jadd (tn c) (fp c))) (jadd (tn c) (fn c)))) \<longrightarrow>
      mcc (computeMetricsFromCounts c) = NaN) \<and>
   (is_zero (jadd (jadd (tp c) (fp c)) (fn c)) \<longrightarrow> ts (computeMetricsFromCounts c) = NaN)"
proof -
  have z: "computeMetricsFromCounts \<lparr>tp = Fin 0, tn = Fin 0, fp = Fin 0, fn = Fin 0\<rparr> =
     \<lparr>tp = Fin 0, tn = Fin 0, fp = Fin 0, fn = Fin 0,
      total = Fin 0, prevalence = NaN, tpr = NaN, fpr = NaN, fnr = NaN, tnr = NaN,
      ppv = NaN, npv = NaN, lrPlus = NaN, lrMinus = NaN, accuracy = NaN, fdr = NaN,
      for' = NaN, markedness = NaN, dor = NaN, balancedAccuracy = NaN, f1 = NaN,
      fm = NaN, mcc = NaN, ts = NaN\<rparr>"
    by (simp add: computeMetricsFromCounts_def Let_def jadd_def jsub_def jmul_def jdiv_def
        divide_num_def num_eq_def is_zero_def is_inf_def round64_def zero_signed_def)
  have n: "jsub (Fin 1) NaN = NaN" by (simp add: jsub_def jadd_def)
  show ?thesis
    unfolding computeMetricsFromCounts_fields ConfusionMetrics.select_convs
    by (intro conjI impI z [unfolded computeMetricsFromCounts_fields])
      (simp_all add: spec_tpr_def spec_fnr_def spec_tnr_def spec_fpr_def spec_ppv_def
        spec_npv_def spec_fdr_def spec_for_def spec_prevalence_def spec_accuracy_def
        spec_lrPlus_def spec_lrMinus_def spec_dor_def spec_f1_def spec_mcc_def spec_ts_def
        spec_positive_def spec_negative_def spec_total_def spec_divide_zero n)
qed

theorem degenerate_counts_give_NaN_witness:
  "is_zero (jadd (Fin 0) (Fin 0)) \<and>
   tpr (computeMetricsFromCounts \<lparr>tp = Fin 0, tn = Fin 0, fp = Fin 0, fn = Fin 0\<rparr>) = NaN \<and>
   ppv (computeMetricsFromCounts \<lparr>tp = Fin 0, tn = Fin 0, fp = Fin 0, fn = Fin 0\<rparr>) = NaN \<and>
   accuracy (computeMetricsFromCounts \<lparr>tp = Fin 0, tn = Fin 0, fp = Fin 0, fn = Fin 0\<rparr>) = NaN \<and>
   total (computeMetricsFromCounts \<lparr>tp = Fin 0, tn = Fin 0, fp = Fin 0, fn = Fin 0\<rparr>) = Fin 0"
proof -
  have z: "jadd (Fin 0) (Fin 0) = Fin 0" by (simp add: jadd_Fin round64_def)
  then have "is_zero (jadd (Fin 0) (Fin 0))" by (simp add: is_zero_def)
  then show ?thesis
    using degenerate_counts_give_NaN [of "\<lparr>tp = Fin 0, tn = Fin 0, fp = Fin 0, fn = Fin 0\<rparr>"]
    by simp
qed

text \<open>
  C5. For every \<open>predicted\<close>, \<open>actual\<close> and \<open>positiveValue\<close>, \<open>computeMetricsFromLabels\<close>
  returns \<open>computeMetricsFromCounts\<close> applied to the result of \<open>computeCountsFromLabels\<close>,
  and it fails exactly when \<open>computeCountsFromLabels\<close> fails, with the same error: when
  the lengths differ, and in no other case.
\<close>

theorem facade_is_composition:
  "computeMetricsFromLabels predicted actual pv =
     map_sum id computeMetricsFromCounts (computeCountsFromLabels predicted actual pv) \<and>
   (\<forall>e. computeMetricsFromLabels predicted actual pv = Inl e \<longleftrightarrow>
        computeCountsFromLabels predicted actual pv = Inl e) \<and>
   (isl (computeMetricsFromLabels predicted actual pv) \<longleftrightarrow>
      length predicted \<noteq> length actual)"
  by (simp add: computeMetricsFromLabels_def computeCountsFromLabels_def)

theorem facade_is_composition_witness:
  "computeMetricsFromLabels [JStr ''pos'', JStr ''pos'', JStr ''neg'', JStr ''neg'']
     [JStr ''pos'', JStr ''neg'', JStr ''pos'', JStr ''neg''] (JStr ''pos'') =
     Inr (computeMetricsFromCounts \<lparr>tp = Fin 1, tn = Fin 1, fp = Fin 1, fn = Fin 1\<rparr>) \<and>
   computeMetricsFromLabels [JBool True] [JBool True, JBool False] JUndefined =
     Inl LengthMismatchError"
proof -
  let ?p = "[JStr ''pos'', JStr ''pos'', JStr ''neg'', JStr ''neg'']"
  let ?a = "[JStr ''pos'', JStr ''neg'', JStr ''pos'', JStr ''neg'']"
  have h: "length ?p = length ?a" "js_array ?p" by (simp_all add: js_array_def)
  have e: "computeCountsFromLabels ?p ?a (JStr ''pos'') =
      Inr \<lparr>tp = Fin 1, tn = Fin 1, fp = Fin 1, fn = Fin 1\<rparr>"
    using counts_eq_buckets [OF h, of "JStr ''pos''"]
    by (simp add: bucket_def spec_isPositive_def upt_rec)
  have f: "computeCountsFromLabels [JBool True] [JBool True, JBool False] JUndefined =
      Inl LengthMismatchError"
    by (simp add: computeCountsFromLabels_def)
  show ?thesis
    using facade_is_composition [of ?p ?a "JStr ''pos''"] facade_is_composition [of "[JBool True]" "[JBool True, JBool False]" JUndefined]
    unfolding e f by simp
qed

text \<open>
  C6, as amended. For every \<open>ConfusionCounts\<close> whose four fields are non-negative
  integers, \<open>total\<close> is never NaN: it is a non-negative integer or \<open>Infinity\<close>. When
  \<open>tp + tn + fp + fn\<close> is at most \<open>2 ^ 53\<close>, \<open>total\<close> is a finite non-negative integer
  and equals \<open>tp + tn + fp + fn\<close>, both as the exact sum and as JavaScript evaluates
  \<open>tp + tn + fp + fn\<close>.
\<close>

theorem total_is_exact_sum:
  assumes "valid_counts c"
  shows "total (computeMetricsFromCounts c) \<noteq> NaN \<and>
     (is_count (total (computeMetricsFromCounts c)) \<or> total (computeMetricsFromCounts c) = PosInf) \<and>
     (val (tp c) + val (tn c) + val (fp c) + val (fn c) \<le> 2 ^ 53 \<longrightarrow>
        is_count (total (computeMetricsFromCounts c)) \<and>
        val (total (computeMetricsFromCounts c)) =
          val (tp c) + val (tn c) + val (fp c) + val (fn c) \<and>
        num_eq (total (computeMetricsFromCounts c))
          (jadd (jadd (jadd (tp c) (tn c)) (fp c)) (fn c)))"
proof -
  from assms have ic: "is_count (tp c)" "is_count (tn c)" "is_count (fp c)" "is_count (fn c)"
    by (simp_all add: valid_counts_def)
  let ?t = "jadd (jadd (tp c) (fn c)) (jadd (tn c) (fp c))"
  have t: "total (computeMetricsFromCounts c) = ?t"
    by (simp add: computeMetricsFromCounts_fields spec_total_def spec_positive_def
        spec_negative_def)
  have ci: "is_count ?t \<or> ?t = PosInf"
    using ic by (intro jadd_count_or_inf) simp_all
  then have nan: "?t \<noteq> NaN" by (auto simp: is_count_def)
  have ex: "is_count ?t \<and> val ?t = val (tp c) + val (tn c) + val (fp c) + val (fn c) \<and>
      num_eq ?t (jadd (jadd (jadd (tp c) (tn c)) (fp c)) (fn c))"
    if le: "val (tp c) + val (tn c) + val (fp c) + val (fn c) \<le> 2 ^ 53"
  proof -
    note v = ic [THEN is_count_val_nonneg]
    have "val (tp c) + val (fn c) \<le> 2 ^ 53" using le v by linarith
    from jadd_count_exact [OF ic(1) ic(4) this]
    have p: "is_count (jadd (tp c) (fn c))" "val (jadd (tp c) (fn c)) = val (tp c) + val (fn c)"
      by simp_all
    have "val (tn c) + val (fp c) \<le> 2 ^ 53" using le v by linarith
    from jadd_count_exact [OF ic(2) ic(3) this]
    have q: "is_count (jadd (tn c) (fp c))" "val (jadd (tn c) (fp c)) = val (tn c) + val (fp c)"
      by simp_all
    have "val (jadd (tp c) (fn c)) + val (jadd (tn c) (fp c)) \<le> 2 ^ 53"
      using le by (simp add: p q)
    from jadd_count_exact [OF p(1) q(1) this]
    have r: "is_count ?t" "val ?t = val (tp c) + val (tn c) + val (fp c) + val (fn c)"
      by (simp_all add: p q)
    have "val (tp c) + val (tn c) \<le> 2 ^ 53" using le v by linarith
    from jadd_count_exact [OF ic(1) ic(2) this]
    have a: "is_count (jadd (tp c) (tn c))" "val (jadd (tp c) (tn c)) = val (tp c) + val (tn c)"
      by simp_all
    have "val (jadd (tp c) (tn c)) + val (fp c) \<le> 2 ^ 53" using le v by (simp add: a)
    from jadd_count_exact [OF a(1) ic(3) this]
    have b: "is_count (jadd (jadd (tp c) (tn c)) (fp c))"
      "val (jadd (jadd (tp c) (tn c)) (fp c)) = val (tp c) + val (tn c) + val (fp c)"
      by (simp_all add: a)
    have "val (jadd (jadd (tp c) (tn c)) (fp c)) + val (fn c) \<le> 2 ^ 53"
      using le by (simp add: b)
    from jadd_count_exact [OF b(1) ic(4) this]
    have d: "is_count (jadd (jadd (jadd (tp c) (tn c)) (fp c)) (fn c))"
      "val (jadd (jadd (jadd (tp c) (tn c)) (fp c)) (fn c)) =
         val (tp c) + val (tn c) + val (fp c) + val (fn c)"
      by (simp_all add: b)
    from is_count_num_eq [OF r(1) d(1)] r d show ?thesis by simp
  qed
  show ?thesis unfolding t using ci nan ex by simp
qed

theorem total_is_exact_sum_witness:
  "valid_counts \<lparr>tp = Fin 70, tn = Fin 100, fp = Fin 10, fn = Fin 20\<rparr> \<and>
   (70 + 100 + 10 + 20 :: real) \<le> 2 ^ 53 \<and>
   total (computeMetricsFromCounts \<lparr>tp = Fin 70, tn = Fin 100, fp = Fin 10, fn = Fin 20\<rparr>)
     = Fin 200 \<and>
   is_count (Fin 200) \<and> val (Fin 200) = 70 + 100 + 10 + 20 \<and>
   num_eq (Fin 200) (jadd (jadd (jadd (Fin 70) (Fin 100)) (Fin 10)) (Fin 20))"
proof -
  have t: "total (computeMetricsFromCounts \<lparr>tp = Fin 70, tn = Fin 100, fp = Fin 10, fn = Fin 20\<rparr>)
     = Fin 200"
    by (simp add: computeMetricsFromCounts_fields spec_total_def spec_positive_def
        spec_negative_def test_counts)
  show ?thesis
    using total_is_exact_sum [OF test_counts(1)] test_counts(1) unfolding t by simp
qed

text \<open>
  C6 as stated fails: the fields \<open>tp = fn = 2 ^ 1023\<close> are non-negative integers, and
  their sum overflows, so that \<open>total\<close> is \<open>Infinity\<close>.
\<close>

theorem total_overflow_counterexample:
  "valid_counts \<lparr>tp = Fin (2 ^ 1023), tn = Fin 0, fp = Fin 0, fn = Fin (2 ^ 1023)\<rparr> \<and>
   total (computeMetricsFromCounts
            \<lparr>tp = Fin (2 ^ 1023), tn = Fin 0, fp = Fin 0, fn = Fin (2 ^ 1023)\<rparr>) = PosInf \<and>
   \<not> is_count PosInf"
proof -
  have "\<not> is_count PosInf" by (simp add: is_count_def)
  then show ?thesis
    unfolding computeMetricsFromCounts_fields ConfusionMetrics.select_convs overflow_fields(2-5)
    by (intro conjI overflow_fields(1) refl)
qed

text \<open>
  C7, as amended. For every \<open>ConfusionCounts\<close> with non-negative integer fields,
  \<open>tpr + fnr\<close> is 1 within four units in the last place whenever \<open>tp + fn\<close> is non-zero
  and finite, and \<open>tnr + fpr\<close> is 1 within the same tolerance whenever \<open>tn + fp\<close> is
  non-zero and finite.
\<close>

theorem complementary_rates_sum_to_one:
  assumes "valid_counts c"
  shows "(\<not> is_zero (jadd (tp c) (fn c)) \<and> jadd (tp c) (fn c) \<noteq> PosInf \<longrightarrow>
            near_one (jadd (tpr (computeMetricsFromCounts c)) (fnr (computeMetricsFromCounts c)))) \<and>
         (\<not> is_zero (jadd (tn c) (fp c)) \<and> jadd (tn c) (fp c) \<noteq> PosInf \<longrightarrow>
            near_one (jadd (tnr (computeMetricsFromCounts c)) (fpr (computeMetricsFromCounts c))))"
proof (intro conjI impI)
  from assms have ic: "is_count (tp c)" "is_count (tn c)" "is_count (fp c)" "is_count (fn c)"
    by (simp_all add: valid_counts_def)
  {
    assume "\<not> is_zero (jadd (tp c) (fn c)) \<and> jadd (tp c) (fn c) \<noteq> PosInf"
    with nonzero_finite_count_sum [OF ic(1) ic(4)]
    obtain p where p: "jadd (tp c) (fn c) = Fin p" "p \<noteq> 0" by auto
    from ratio_sum_near_one [OF ic(1) ic(4) p]
    show "near_one (jadd (tpr (computeMetricsFromCounts c)) (fnr (computeMetricsFromCounts c)))"
      by (simp add: computeMetricsFromCounts_fields spec_tpr_def spec_fnr_def spec_positive_def
          p divide_num_spec)
  }
  {
    assume "\<not> is_zero (jadd (tn c) (fp c)) \<and> jadd (tn c) (fp c) \<noteq> PosInf"
    with nonzero_finite_count_sum [OF ic(2) ic(3)]
    obtain p where p: "jadd (tn c) (fp c) = Fin p" "p \<noteq> 0" by auto
    from ratio_sum_near_one [OF ic(2) ic(3) p]
    show "near_one (jadd (tnr (computeMetricsFromCounts c)) (fpr (computeMetricsFromCounts c)))"
      by (simp add: computeMetricsFromCounts_fields spec_tnr_def spec_fpr_def spec_negative_def
          p divide_num_spec)
  }
qed

theorem complementary_rates_sum_to_one_witness:
  "valid_counts \<lparr>tp = Fin 70, tn = Fin 100, fp = Fin 10, fn = Fin 20\<rparr> \<and>
   \<not> is_zero (jadd (Fin 70) (Fin 20)) \<and> jadd (Fin 70) (Fin 20) \<noteq> PosInf \<and>
   near_one (jadd
     (tpr (computeMetricsFromCounts \<lparr>tp = Fin 70, tn = Fin 100, fp = Fin 10, fn = Fin 20\<rparr>))
     (fnr (computeMetricsFromCounts \<lparr>tp = Fin 70, tn = Fin 100, fp = Fin 10, fn = Fin 20\<rparr>))) \<and>
   \<not> is_zero (jadd (Fin 100) (Fin 10)) \<and> jadd (Fin 100) (Fin 10) \<noteq> PosInf \<and>
   near_one (jadd
     (tnr (computeMetricsFromCounts \<lparr>tp = Fin 70, tn = Fin 100, fp = Fin 10, fn = Fin 20\<rparr>))
     (fpr (computeMetricsFromCounts \<lparr>tp = Fin 70, tn = Fin 100, fp = Fin 10, fn = Fin 20\<rparr>)))"
  using complementary_rates_sum_to_one [OF test_counts(1)] test_counts(1)
  by (simp add: test_counts is_zero_def)

text \<open>
  C7 as stated fails: with \<open>tp = fn = 2 ^ 1023\<close> the sum \<open>tp + fn\<close> is \<open>Infinity\<close>, which
  is not zero, both \<open>tpr\<close> and \<open>fnr\<close> are 0, and \<open>tpr + fnr\<close> is 0.
\<close>

theorem complementary_rates_overflow_counterexample:
  "valid_counts \<lparr>tp = Fin (2 ^ 1023), tn = Fin 0, fp = Fin 0, fn = Fin (2 ^ 1023)\<rparr> \<and>
   \<not> is_zero (jadd (Fin (2 ^ 1023)) (Fin (2 ^ 1023))) \<and>
   jadd (tpr (computeMetricsFromCounts
               \<lparr>tp = Fin (2 ^ 1023), tn = Fin 0, fp = Fin 0, fn = Fin (2 ^ 1023)\<rparr>))
        (fnr (computeMetricsFromCounts
               \<lparr>tp = Fin (2 ^ 1023), tn = Fin 0, fp = Fin 0, fn = Fin (2 ^ 1023)\<rparr>)) = Fin 0 \<and>
   \<not> near_one (Fin 0)"
proof -
  have "jadd (Fin 0) (Fin 0) = Fin 0" by (simp add: jadd_Fin round64_def)
  moreover have "\<not> near_one (Fin 0)" by (simp add: near_one_def)
  moreover have "\<not> is_zero PosInf" by (simp add: is_zero_def)
  ultimately show ?thesis
    unfolding computeMetricsFromCounts_fields ConfusionMetrics.select_convs
      overflow_fields(2-5) overflow_sum
    by (intro conjI overflow_fields(1))
qed

text \<open>
  C8. For all counts \<open>c\<close> with non-negative integer fields satisfying
  \<open>c.tp + c.fn > 0\<close> and \<open>c.tn + c.fp > 0\<close>, every value among \<open>tpr\<close>, \<open>tnr\<close>, \<open>ppv\<close>,
  \<open>npv\<close> and \<open>accuracy\<close> of the result of \<open>computeMetricsFromCounts\<close> that is not NaN
  lies in the closed interval from 0 to 1.
\<close>

theorem rates_in_unit_interval:
  assumes "valid_counts c"
    and "num_lt (Fin 0) (jadd (tp c) (fn c))"
    and "num_lt (Fin 0) (jadd (tn c) (fp c))"
  shows "(tpr (computeMetricsFromCounts c) \<noteq> NaN \<longrightarrow> in_unit (tpr (computeMetricsFromCounts c))) \<and>
         (tnr (computeMetricsFromCounts c) \<noteq> NaN \<longrightarrow> in_unit (tnr (computeMetricsFromCounts c))) \<and>
         (ppv (computeMetricsFromCounts c) \<noteq> NaN \<longrightarrow> in_unit (ppv (computeMetricsFromCounts c))) \<and>
         (npv (computeMetricsFromCounts c) \<noteq> NaN \<longrightarrow> in_unit (npv (computeMetricsFromCounts c))) \<and>
         (accuracy (computeMetricsFromCounts c) \<noteq> NaN \<longrightarrow>
            in_unit (accuracy (computeMetricsFromCounts c)))"
proof -
  from assms(1) have n: "nonneg (tp c)" "nonneg (tn c)" "nonneg (fp c)" "nonneg (fn c)"
    and d: "is_double (val (tp c))" "is_double (val (tn c))"
    by (simp_all add: valid_counts_def is_count_nonneg is_count_double)
  have "num_le (tp c) (jadd (tp c) (fn c))" using n d by (simp add: le_jadd_left)
  from divide_unit [OF n(1) jadd_nonneg [OF n(1) n(4)] this]
  have 1: "spec_tpr c \<noteq> NaN \<longrightarrow> in_unit (spec_tpr c)"
    by (auto simp: spec_tpr_def spec_positive_def divide_num_spec)
  have "num_le (tn c) (jadd (tn c) (fp c))" using n d by (simp add: le_jadd_left)
  from divide_unit [OF n(2) jadd_nonneg [OF n(2) n(3)] this]
  have 2: "spec_tnr c \<noteq> NaN \<longrightarrow> in_unit (spec_tnr c)"
    by (auto simp: spec_tnr_def spec_negative_def divide_num_spec)
  have "num_le (tp c) (jadd (tp c) (fp c))" using n d by (simp add: le_jadd_left)
  from divide_unit [OF n(1) jadd_nonneg [OF n(1) n(3)] this]
  have 3: "spec_ppv c \<noteq> NaN \<longrightarrow> in_unit (spec_ppv c)"
    by (auto simp: spec_ppv_def divide_num_spec)
  have "num_le (tn c) (jadd (tn c) (fn c))" using n d by (simp add: le_jadd_left)
  from divide_unit [OF n(2) jadd_nonneg [OF n(2) n(4)] this]
  have 4: "spec_npv c \<noteq> NaN \<longrightarrow> in_unit (spec_npv c)"
    by (auto simp: spec_npv_def divide_num_spec)
  have "num_le (jadd (tp c) (tn c)) (jadd (jadd (tp c) (fn c)) (jadd (tn c) (fp c)))"
    using n d by (intro jadd_mono jadd_nonneg le_jadd_left)
  from divide_unit [OF jadd_nonneg [OF n(1) n(2)]
      jadd_nonneg [OF jadd_nonneg [OF n(1) n(4)] jadd_nonneg [OF n(2) n(3)]] this]
  have 5: "spec_accuracy c \<noteq> NaN \<longrightarrow> in_unit (spec_accuracy c)"
    by (auto simp: spec_accuracy_def spec_total_def spec_positive_def spec_negative_def
        divide_num_spec)
  show ?thesis using 1 2 3 4 5 by (simp add: computeMetricsFromCounts_fields)
qed

theorem rates_in_unit_interval_witness:
  "valid_counts \<lparr>tp = Fin 70, tn = Fin 100, fp = Fin 10, fn = Fin 20\<rparr> \<and>
   num_lt (Fin 0) (jadd (Fin 70) (Fin 20)) \<and> num_lt (Fin 0) (jadd (Fin 100) (Fin 10)) \<and>
   tpr (computeMetricsFromCounts \<lparr>tp = Fin 70, tn = Fin 100, fp = Fin 10, fn = Fin 20\<rparr>)
     = Fin (7005599420354105 / 9007199254740992) \<and>
   in_unit (Fin (7005599420354105 / 9007199254740992)) \<and>
   in_unit (tnr (computeMetricsFromCounts \<lparr>tp = Fin 70, tn = Fin 100, fp = Fin 10, fn = Fin 20\<rparr>))"
proof -
  let ?c = "\<lparr>tp = Fin 70, tn = Fin 100, fp = Fin 10, fn = Fin 20\<rparr>"
  have v: "valid_counts ?c"
    using is_count_of_nat [of 70] is_count_of_nat [of 100] is_count_of_nat [of 10]
      is_count_of_nat [of 20]
    by (simp add: valid_counts_def)
  have p: "jadd (Fin 70) (Fin 20) = Fin 90" "jadd (Fin 100) (Fin 10) = Fin 110"
    using round64_of_nat [of 90] round64_of_nat [of 110] by (simp_all add: jadd_Fin)
  have h: "num_lt (Fin 0) (jadd (tp ?c) (fn ?c))" "num_lt (Fin 0) (jadd (tn ?c) (fp ?c))"
    by (simp_all add: p num_lt_def)
  have t: "tpr (computeMetricsFromCounts ?c) = Fin (7005599420354105 / 9007199254740992)"
    by (simp add: computeMetricsFromCounts_fields spec_tpr_def spec_positive_def p
        divide_num_spec [symmetric] divide_num_Fin round64_eval)
  have t2: "tnr (computeMetricsFromCounts ?c) = Fin (8188362958855447 / 9007199254740992)"
    by (simp add: computeMetricsFromCounts_fields spec_tnr_def spec_negative_def p
        divide_num_spec [symmetric] divide_num_Fin round64_eval)
  from rates_in_unit_interval [OF v h] show ?thesis using v h t t2 by simp
qed

text \<open>
  C9. For every pair of arrays of equal length and every \<open>positiveValue\<close>, the counts
  returned by \<open>computeCountsFromLabels\<close> are four non-negative integers whose sum is the
  common length of the arrays.
\<close>

theorem counts_sum_to_length:
  assumes "length predicted = length actual" "js_array predicted"
  shows "\<exists>c. computeCountsFromLabels predicted actual pv = Inr c \<and>
     is_count (tp c) \<and> is_count (tn c) \<and> is_count (fp c) \<and> is_count (fn c) \<and>
     val (tp c) + val (tn c) + val (fp c) + val (fn c) = real (length predicted)"
proof -
  have l: "length predicted \<le> 2 ^ 53"
    using assms(2) by (simp add: js_array_def)
  have b: "bucket pv predicted actual pb ab \<le> 2 ^ 53" for pb ab
    using bucket_le [of pv predicted actual pb ab] l by linarith
  have "real (bucket pv predicted actual True True) + real (bucket pv predicted actual False False) +
     real (bucket pv predicted actual True False) + real (bucket pv predicted actual False True) =
     real (length predicted)"
    using bucket_sum [of pv predicted actual] by (simp only: of_nat_add [symmetric])
  moreover have "is_count (Fin (real (bucket pv predicted actual pb ab)))" for pb ab
    by (rule is_count_of_nat [OF b])
  ultimately show ?thesis
    unfolding counts_eq_buckets [OF assms] by simp
qed

theorem counts_sum_to_length_witness:
  "length [JBool True, JBool True, JBool False, JBool True] =
     length [JBool True, JBool False, JBool False, JBool False] \<and>
   js_array [JBool True, JBool True, JBool False, JBool True] \<and>
   (\<exists>c. computeCountsFromLabels [JBool True, JBool True, JBool False, JBool True]
          [JBool True, JBool False, JBool False, JBool False] JUndefined = Inr c \<and>
        c = \<lparr>tp = Fin 1, tn = Fin 1, fp = Fin 2, fn = Fin 0\<rparr> \<and>
        is_count (tp c) \<and> is_count (tn c) \<and> is_count (fp c) \<and> is_count (fn c) \<and>
        val (tp c) + val (tn c) + val (fp c) + val (fn c) = 4)"
proof -
  let ?p = "[JBool True, JBool True, JBool False, JBool True]"
  let ?a = "[JBool True, JBool False, JBool False, JBool False]"
  have h: "length ?p = length ?a" "js_array ?p" by (simp_all add: js_array_def)
  have e: "computeCountsFromLabels ?p ?a JUndefined =
      Inr \<lparr>tp = Fin 1, tn = Fin 1, fp = Fin 2, fn = Fin 0\<rparr>"
    using counts_eq_buckets [OF h, of JUndefined]
    by (simp add: bucket_def spec_isPositive_def upt_rec)
  from counts_sum_to_length [OF h, of JUndefined] show ?thesis
    using h unfolding e by simp
qed

text \<open>
  C10. For every pair of arrays of equal length and every \<open>positiveValue\<close>, swapping the
  \<open>predicted\<close> and \<open>actual\<close> arguments of \<open>computeCountsFromLabels\<close> leaves \<open>tp\<close> and \<open>tn\<close>
  unchanged and exchanges \<open>fp\<close> with \<open>fn\<close>.
\<close>

theorem swap_exchanges_fp_fn:
  assumes "length predicted = length actual"
  shows "\<exists>c c'. computeCountsFromLabels predicted actual pv = Inr c \<and>
     computeCountsFromLabels actual predicted pv = Inr c' \<and>
     tp c' = tp c \<and> tn c' = tn c \<and> fp c' = fn c \<and> fn c' = fp c"
proof -
  let ?z = "\<lparr>tp = Fin 0, tn = Fin 0, fp = Fin 0, fn = Fin 0\<rparr>"
  have "?z = ?z\<lparr>fp := fn ?z, fn := fp ?z\<rparr>" by simp
  then have "count_loop pv actual predicted 0 ?z =
      count_loop pv actual predicted 0 (?z\<lparr>fp := fn ?z, fn := fp ?z\<rparr>)"
    by simp
  also note count_loop_swap [OF assms [symmetric]]
  finally show ?thesis using assms by (simp add: computeCountsFromLabels_def)
qed

theorem swap_exchanges_fp_fn_witness:
  "length [JBool True, JBool True, JBool False, JBool True] =
     length [JBool True, JBool False, JBool False, JBool False] \<and>
   computeCountsFromLabels [JBool True, JBool True, JBool False, JBool True]
     [JBool True, JBool False, JBool False, JBool False] JUndefined =
     Inr \<lparr>tp = Fin 1, tn = Fin 1, fp = Fin 2, fn = Fin 0\<rparr> \<and>
   computeCountsFromLabels [JBool True, JBool False, JBool False, JBool False]
     [JBool True, JBool True, JBool False, JBool True] JUndefined =
     Inr \<lparr>tp = Fin 1, tn = Fin 1, fp = Fin 0, fn = Fin 2\<rparr>"
proof -
  let ?p = "[JBool True, JBool True, JBool False, JBool True]"
  let ?a = "[JBool True, JBool False, JBool False, JBool False]"
  have h: "length ?p = length ?a" "js_array ?p" by (simp_all add: js_array_def)
  have e: "computeCountsFromLabels ?p ?a JUndefined =
      Inr \<lparr>tp = Fin 1, tn = Fin 1, fp = Fin 2, fn = Fin 0\<rparr>"
    using counts_eq_buckets [OF h, of JUndefined]
    by (simp add: bucket_def spec_isPositive_def upt_rec)
  from swap_exchanges_fp_fn [OF h(1), of JUndefined]
  obtain c' where "computeCountsFromLabels ?a ?p JUndefined = Inr c'"
    and "tp c' = Fin 1" "tn c' = Fin 1" "fp c' = Fin 0" "fn c' = Fin 2"
    unfolding e by auto
  then have "computeCountsFromLabels ?a ?p JUndefined =
      Inr \<lparr>tp = Fin 1, tn = Fin 1, fp = Fin 0, fn = Fin 2\<rparr>"
    by (cases c') simp
  with e h(1) show ?thesis by simp
qed

end
